theory Spec2Isabelle
  imports Main "HOL-Library.Sublist" "HOL-Library.AList"
begin

section \<open>Python values used by the sources\<close>

text \<open>
  A Python \<open>str\<close> is modelled as a \<open>string\<close>: one \<open>char\<close> per character, so the
  model covers texts whose characters have code points below 256. Lengths and
  indices count characters, as Python's do. Python integers are unbounded: \<open>int\<close>.
\<close>

text \<open>
  \<open>str.isspace\<close> on one character: the characters below 256 that Python treats
  as whitespace are U+0009..U+000D, U+001C..U+001F, U+0020, U+0085 and U+00A0.
\<close>

definition isspace :: "char \<Rightarrow> bool" where
  "isspace c =
     (let k = (of_char c :: nat)
      in (9 \<le> k \<and> k \<le> 13) \<or> (28 \<le> k \<and> k \<le> 32) \<or> k = 133 \<or> k = 160)"

text \<open>\<open>s.strip()\<close>: leading and trailing whitespace removed.\<close>

definition strip :: "string \<Rightarrow> string" where
  "strip s = rev (dropWhile isspace (rev (dropWhile isspace s)))"

text \<open>
  \<open>xs[lo:hi]\<close>: a negative bound counts from the end, and both bounds are clamped
  to \<open>0..len(xs)\<close>; the slice is empty when the bounds cross.
\<close>

definition py_slice :: "'a list \<Rightarrow> int \<Rightarrow> int \<Rightarrow> 'a list" where
  "py_slice xs lo hi =
     (let n = int (length xs);
          adjust = (\<lambda>i. if i < 0 then max 0 (i + n) else min i n);
          a = adjust lo;
          b = adjust hi
      in take (nat (b - a)) (drop (nat a) xs))"

section \<open>vector_db.py: the chunker\<close>

text \<open>
  \<open>split_text\<close> is a \<open>while\<close> loop over \<open>start\<close> and \<open>chunks\<close>. Nothing in the
  source bounds the number of iterations, so the loop is a partial function: the
  value \<open>None\<close> stands for a call that never returns.
\<close>

partial_function (option) split_text_loop ::
  "string \<Rightarrow> int \<Rightarrow> int \<Rightarrow> int \<Rightarrow> string list \<Rightarrow> string list option" where
  "split_text_loop text chunk_size overlap start chunks =
     (if start < int (length text) then
        (let end = min (start + chunk_size) (int (length text));
             chunk = strip (py_slice text start end)
         in split_text_loop text chunk_size overlap (start + (chunk_size - overlap))
              (if chunk \<noteq> [] then chunks @ [chunk] else chunks))
      else Some chunks)"

definition split_text :: "string \<Rightarrow> int \<Rightarrow> int \<Rightarrow> string list option" where
  "split_text text chunk_size overlap = split_text_loop text chunk_size overlap 0 []"

declare split_text_loop.simps [code]

section \<open>vector_db.py: chunk ids\<close>

text \<open>\<open>s.find(c)\<close> and \<open>s.rfind(c)\<close> for a one-character needle: the index, or \<open>-1\<close>.\<close>

fun str_find :: "string \<Rightarrow> char \<Rightarrow> int" where
  "str_find [] c = -1"
| "str_find (x # xs) c =
     (if x = c then 0 else (let r = str_find xs c in if r = -1 then -1 else r + 1))"

definition str_rfind :: "string \<Rightarrow> char \<Rightarrow> int" where
  "str_rfind s c =
     (let r = str_find (rev s) c in if r = -1 then -1 else int (length s) - 1 - r)"

text \<open>
  \<open>os.path.basename\<close> and \<open>os.path.splitext\<close> as \<open>posixpath\<close> defines them: the
  base name is what follows the last \<open>/\<close>; the extension starts at the last dot of
  the base name, unless only dots precede it there.
\<close>

definition basename :: "string \<Rightarrow> string" where
  "basename p = py_slice p (str_rfind p CHR ''/'' + 1) (int (length p))"

definition splitext :: "string \<Rightarrow> string \<times> string" where
  "splitext p =
     (let sepIndex = str_rfind p CHR ''/'';
          dotIndex = str_rfind p CHR ''.''
      in if dotIndex > sepIndex \<and>
            (\<exists>c \<in> set (py_slice p (sepIndex + 1) dotIndex). c \<noteq> CHR ''.'')
         then (py_slice p 0 dotIndex, py_slice p dotIndex (int (length p)))
         else (p, []))"

text \<open>\<open>str(i)\<close> for an index \<open>i \<ge> 0\<close>: its decimal digits.\<close>

definition digit_char :: "nat \<Rightarrow> char" where
  "digit_char d = char_of (48 + d)"

function str_nat :: "nat \<Rightarrow> string" where
  "str_nat n = (if n < 10 then [digit_char n] else str_nat (n div 10) @ [digit_char (n mod 10)])"
  by pat_completeness auto
termination
  by (relation "measure id") auto

declare str_nat.simps [simp del]

text \<open>The id of the \<open>i\<close>-th chunk of a document: \<open>f"{base_name}_chunk_{i}"\<close>.\<close>

definition chunk_id :: "string \<Rightarrow> nat \<Rightarrow> string" where
  "chunk_id base_name i = base_name @ ''_chunk_'' @ str_nat i"

text \<open>
  \<open>add_pdf_to_vectordb\<close>. The text that \<open>extract_text_from_pdf\<close> reads from the
  file is a parameter; the result is the pair of arguments handed to
  \<open>collection.add\<close>, or \<open>None\<close> if the chunker does not return.
\<close>

definition add_pdf_args :: "string \<Rightarrow> string \<Rightarrow> (string list \<times> string list) option" where
  "add_pdf_args pdf_path pdf_text =
     (case split_text pdf_text 1000 100 of
        None \<Rightarrow> None
      | Some chunks \<Rightarrow>
          (let base_name = fst (splitext (basename pdf_path));
               ids = map (chunk_id base_name) [0..<length chunks]
           in Some (chunks, ids)))"

text \<open>
  Modelled from the spec: the store behind \<open>collection.add\<close> is the external
  vector database. The spec describes it as an index keyed by chunk id in which
  "re-adding an existing id overwrites that entry"; it is a map from ids to
  documents here.
\<close>

type_synonym store = "string \<rightharpoonup> string"

definition collection_add :: "store \<Rightarrow> string list \<Rightarrow> string list \<Rightarrow> store" where
  "collection_add st documents ids = fold (\<lambda>(i, d) m. m(i \<mapsto> d)) (zip ids documents) st"

definition add_pdf_to_vectordb :: "store \<Rightarrow> string \<Rightarrow> string \<Rightarrow> store option" where
  "add_pdf_to_vectordb st pdf_path pdf_text =
     (case add_pdf_args pdf_path pdf_text of
        None \<Rightarrow> None
      | Some (chunks, ids) \<Rightarrow> Some (collection_add st chunks ids))"

section \<open>Exceptions and JSON values\<close>

text \<open>
  The exceptions that the sources raise, catch or let pass. \<open>except Exception\<close>
  catches the classes derived from \<open>Exception\<close>; \<open>KeyboardInterrupt\<close> and
  \<open>SystemExit\<close> derive from \<open>BaseException\<close> only, and a bare \<open>except:\<close> catches
  everything. \<open>OtherError\<close> stands for any other class derived from \<open>Exception\<close>
  that a collaborator raises, \<open>OtherBaseException\<close> for any other class that is
  not.
\<close>

datatype exn =
    KeyboardInterrupt
  | SystemExit
  | OtherBaseException string
  | EOFError
  | KeyError string
  | IndexError string
  | TypeError string
  | AttributeError string
  | RuntimeError string
  | JSONDecodeError string
  | RecursionError
  | OtherError string

fun is_Exception :: "exn \<Rightarrow> bool" where
  "is_Exception KeyboardInterrupt = False"
| "is_Exception SystemExit = False"
| "is_Exception (OtherBaseException m) = False"
| "is_Exception e = True"

text \<open>\<open>str(e)\<close>, as the f-strings of the sources format an exception.\<close>

fun exn_str :: "exn \<Rightarrow> string" where
  "exn_str (KeyError k) = [CHR 0x27] @ k @ [CHR 0x27]"
| "exn_str (OtherBaseException m) = m"
| "exn_str (IndexError m) = m"
| "exn_str (TypeError m) = m"
| "exn_str (AttributeError m) = m"
| "exn_str (RuntimeError m) = m"
| "exn_str (JSONDecodeError m) = m"
| "exn_str (OtherError m) = m"
| "exn_str e = []"

text \<open>
  The values that \<open>json.loads\<close> builds. Python's \<open>None\<close> is \<open>JNull\<close>. A number
  with a fraction or an exponent is kept as its lexeme: its conversion to a
  floating-point value is outside the model.
\<close>

datatype json =
    JNull
  | JBool bool
  | JInt int
  | JFloat string
  | JStr string
  | JArr "json list"
  | JObj "(string \<times> json) list"

text \<open>
  Truth value of a Python object in a condition. For a float lexeme: some digit
  of its mantissa is not zero (a literal so small that it rounds to \<open>0.0\<close> is
  outside the model; \<open>NaN\<close> and the infinities are true).
\<close>

fun truthy :: "json \<Rightarrow> bool" where
  "truthy JNull = False"
| "truthy (JBool b) = b"
| "truthy (JInt i) = (i \<noteq> 0)"
| "truthy (JFloat lexeme) =
     (\<exists>c \<in> set (takeWhile (\<lambda>c. c \<noteq> CHR ''e'' \<and> c \<noteq> CHR ''E'') lexeme).
        c \<notin> {CHR ''0'', CHR ''-'', CHR ''.''})"
| "truthy (JStr s) = (s \<noteq> [])"
| "truthy (JArr xs) = (xs \<noteq> [])"
| "truthy (JObj kvs) = (kvs \<noteq> [])"

text \<open>
  \<open>d.get(key)\<close>, \<open>d.get(key, default)\<close> and \<open>d[key]\<close>. Only a \<open>dict\<close> has \<open>get\<close>;
  subscripting another value with a string fails in a way that depends on the
  value, always with a class derived from \<open>Exception\<close>.
\<close>

fun dict_get :: "json \<Rightarrow> string \<Rightarrow> json \<Rightarrow> exn + json" where
  "dict_get (JObj kvs) key dflt =
     (case map_of kvs key of None \<Rightarrow> Inr dflt | Some v \<Rightarrow> Inr v)"
| "dict_get v key dflt = Inl (AttributeError ''object has no attribute get'')"

fun dict_item :: "json \<Rightarrow> string \<Rightarrow> exn + json" where
  "dict_item (JObj kvs) key =
     (case map_of kvs key of None \<Rightarrow> Inl (KeyError key) | Some v \<Rightarrow> Inr v)"
| "dict_item v key = Inl (TypeError ''indices must be integers'')"

section \<open>json.loads\<close>

text \<open>
  \<open>json.loads\<close> belongs to Python's standard library, not to the repository.
  The functions of the client take the decoder as a parameter \<open>loads\<close>, and the
  theorems about them hold for every decoder. \<open>json_loads\<close> below follows the
  library's decoder (\<open>json/decoder.py\<close>, \<open>json/scanner.py\<close>) and is the instance
  at which concrete inputs are evaluated. Keys given twice keep the last value,
  as \<open>dict(pairs)\<close> does. The decoder works on the rest of the input instead of
  an index. Its recursion is bounded by a counter that decreases at every call,
  and \<open>json_loads\<close> starts it at twice the length of the text plus two; a
  counter that runs out is reported as \<open>RecursionError\<close>.
\<close>

definition json_ws :: "char \<Rightarrow> bool" where
  "json_ws c = (c = CHR '' '' \<or> c = CHR 0x09 \<or> c = CHR 0x0A \<or> c = CHR 0x0D)"

definition skip_ws :: "string \<Rightarrow> string" where
  "skip_ws s = dropWhile json_ws s"

definition is_digit :: "char \<Rightarrow> bool" where
  "is_digit c = (48 \<le> (of_char c :: nat) \<and> (of_char c :: nat) \<le> 57)"

definition hex_val :: "char \<Rightarrow> nat option" where
  "hex_val c =
     (let k = (of_char c :: nat)
      in if 48 \<le> k \<and> k \<le> 57 then Some (k - 48)
         else if 65 \<le> k \<and> k \<le> 70 then Some (k - 55)
         else if 97 \<le> k \<and> k \<le> 102 then Some (k - 87)
         else None)"

definition backslash :: "char \<Rightarrow> char option" where
  "backslash c =
     (if c = CHR 0x22 then Some (CHR 0x22)
      else if c = CHR 0x5C then Some (CHR 0x5C)
      else if c = CHR ''/'' then Some (CHR ''/'')
      else if c = CHR ''b'' then Some (CHR 0x08)
      else if c = CHR ''f'' then Some (CHR 0x0C)
      else if c = CHR ''n'' then Some (CHR 0x0A)
      else if c = CHR ''r'' then Some (CHR 0x0D)
      else if c = CHR ''t'' then Some (CHR 0x09)
      else None)"

text \<open>
  \<open>py_scanstring\<close> in strict mode, from the character after the opening quote:
  the decoded string and the rest after the closing quote. A four-digit unicode escape
  above \<open>00FF\<close> denotes a character that the strings of this model do not have;
  it is reported as an error of its own.
\<close>

fun scanstring :: "string \<Rightarrow> string \<Rightarrow> exn + (string \<times> string)" where
  "scanstring acc [] = Inl (JSONDecodeError ''Unterminated string starting at'')"
| "scanstring acc (c # cs) =
     (if c = CHR 0x22 then Inr (acc, cs)
      else if c = CHR 0x5C then
        (case cs of
           [] \<Rightarrow> Inl (JSONDecodeError ''Unterminated string starting at'')
         | e # es \<Rightarrow>
             if e = CHR ''u'' then
               (case es of
                  h1 # h2 # h3 # h4 # rest \<Rightarrow>
                    (case (hex_val h1, hex_val h2, hex_val h3, hex_val h4) of
                       (Some a, Some b, Some c, Some d) \<Rightarrow>
                         (if a = 0 \<and> b = 0
                          then scanstring (acc @ [char_of (16 * c + d)]) rest
                          else Inl (OtherError ''character outside the model''))
                     | _ \<Rightarrow> Inl (JSONDecodeError ''Invalid unicode escape''))
                | _ \<Rightarrow> Inl (JSONDecodeError ''Invalid unicode escape''))
             else
               (case backslash e of
                  None \<Rightarrow> Inl (JSONDecodeError ''Invalid escape'')
                | Some d \<Rightarrow> scanstring (acc @ [d]) es))
      else if (of_char c :: nat) < 32 then
        Inl (JSONDecodeError ''Invalid control character at'')
      else scanstring (acc @ [c]) cs)"

text \<open>
  \<open>NUMBER_RE\<close>: an optional minus sign and either \<open>0\<close> or a digit from 1 to 9
  followed by digits; then, optionally, a dot and at least one digit; then,
  optionally, \<open>e\<close> or \<open>E\<close>, an optional sign and at least one digit. The three
  functions give the length of each group's match at the head of the input
  (\<open>None\<close> when the integer part does not match, 0 when an optional group is
  absent).
\<close>

definition match_integer :: "string \<Rightarrow> nat option" where
  "match_integer s =
     (let sign = (if s \<noteq> [] \<and> hd s = CHR ''-'' then 1 else 0);
          ds = drop sign s
      in case ds of
           [] \<Rightarrow> None
         | d # _ \<Rightarrow>
             if d = CHR ''0'' then Some (sign + 1)
             else if is_digit d then Some (sign + length (takeWhile is_digit ds))
             else None)"

definition match_frac :: "string \<Rightarrow> nat" where
  "match_frac s =
     (case s of
        c # ds \<Rightarrow>
          if c = CHR ''.'' \<and> takeWhile is_digit ds \<noteq> []
          then 1 + length (takeWhile is_digit ds) else 0
      | [] \<Rightarrow> 0)"

definition match_exp :: "string \<Rightarrow> nat" where
  "match_exp s =
     (case s of
        c # ds \<Rightarrow>
          if c = CHR ''e'' \<or> c = CHR ''E'' then
            (let sign = (if ds \<noteq> [] \<and> (hd ds = CHR ''-'' \<or> hd ds = CHR ''+'') then 1 else 0);
                 n = length (takeWhile is_digit (drop sign ds))
             in if n = 0 then 0 else 1 + sign + n)
          else 0
      | [] \<Rightarrow> 0)"

definition int_of_digits :: "string \<Rightarrow> int" where
  "int_of_digits ds = foldl (\<lambda>n c. 10 * n + (int (of_char c) - 48)) 0 ds"

text \<open>\<open>int(integer)\<close> for a lexeme matched by the first group.\<close>

definition int_of_lexeme :: "string \<Rightarrow> int" where
  "int_of_lexeme s =
     (if s \<noteq> [] \<and> hd s = CHR ''-'' then - int_of_digits (tl s) else int_of_digits s)"

definition match_number :: "string \<Rightarrow> (json \<times> string) option" where
  "match_number s =
     (case match_integer s of
        None \<Rightarrow> None
      | Some n \<Rightarrow>
          (let f = match_frac (drop n s);
               e = match_exp (drop (n + f) s)
           in if f = 0 \<and> e = 0
              then Some (JInt (int_of_lexeme (take n s)), drop n s)
              else Some (JFloat (take (n + f + e) s), drop (n + f + e) s)))"

text \<open>\<open>dict(pairs)\<close>: a key given again replaces the value at its first position.\<close>

definition dict_of_pairs :: "(string \<times> json) list \<Rightarrow> (string \<times> json) list" where
  "dict_of_pairs pairs = foldl (\<lambda>d (k, v). AList.update k v d) [] pairs"

text \<open>
  \<open>scan_once\<close> dispatches on the first character; \<open>object_loop\<close> is the
  \<open>while True\<close> loop of \<open>JSONObject\<close>, entered after the opening quote of a key,
  and \<open>array_loop\<close> the loop of \<open>JSONArray\<close>, entered at the start of a value.
\<close>

fun scan_once :: "nat \<Rightarrow> string \<Rightarrow> exn + (json \<times> string)"
  and object_loop :: "nat \<Rightarrow> (string \<times> json) list \<Rightarrow> string \<Rightarrow> exn + (json \<times> string)"
  and array_loop :: "nat \<Rightarrow> json list \<Rightarrow> string \<Rightarrow> exn + (json \<times> string)" where
  "scan_once 0 s = Inl RecursionError"
| "scan_once (Suc n) s =
     (case s of
        [] \<Rightarrow> Inl (JSONDecodeError ''Expecting value'')
      | c # cs \<Rightarrow>
          if c = CHR 0x22 then
            (case scanstring [] cs of Inl e \<Rightarrow> Inl e | Inr (str, rest) \<Rightarrow> Inr (JStr str, rest))
          else if c = CHR ''{'' then
            (case skip_ws cs of
               [] \<Rightarrow> Inl (JSONDecodeError
                           ''Expecting property name enclosed in double quotes'')
             | d # ds \<Rightarrow>
                 if d = CHR ''}'' then Inr (JObj [], ds)
                 else if d = CHR 0x22 then object_loop n [] ds
                 else Inl (JSONDecodeError
                             ''Expecting property name enclosed in double quotes''))
          else if c = CHR ''['' then
            (case skip_ws cs of
               [] \<Rightarrow> array_loop n [] []
             | d # ds \<Rightarrow> if d = CHR '']'' then Inr (JArr [], ds) else array_loop n [] (d # ds))
          else if c = CHR ''n'' \<and> take 4 s = ''null'' then Inr (JNull, drop 4 s)
          else if c = CHR ''t'' \<and> take 4 s = ''true'' then Inr (JBool True, drop 4 s)
          else if c = CHR ''f'' \<and> take 5 s = ''false'' then Inr (JBool False, drop 5 s)
          else
            (case match_number s of
               Some r \<Rightarrow> Inr r
             | None \<Rightarrow>
                 if c = CHR ''N'' \<and> take 3 s = ''NaN'' then Inr (JFloat ''NaN'', drop 3 s)
                 else if c = CHR ''I'' \<and> take 8 s = ''Infinity''
                   then Inr (JFloat ''Infinity'', drop 8 s)
                 else if c = CHR ''-'' \<and> take 9 s = ''-Infinity''
                   then Inr (JFloat ''-Infinity'', drop 9 s)
                 else Inl (JSONDecodeError ''Expecting value'')))"
| "object_loop 0 pairs s = Inl RecursionError"
| "object_loop (Suc n) pairs s =
     (case scanstring [] s of
        Inl e \<Rightarrow> Inl e
      | Inr (key, rest) \<Rightarrow>
          (case skip_ws rest of
             [] \<Rightarrow> Inl (JSONDecodeError ''Expecting colon delimiter'')
           | c # cs \<Rightarrow>
               if c \<noteq> CHR '':'' then Inl (JSONDecodeError ''Expecting colon delimiter'')
               else
                 (case scan_once n (skip_ws cs) of
                    Inl e \<Rightarrow> Inl e
                  | Inr (v, rest') \<Rightarrow>
                      (case skip_ws rest' of
                         [] \<Rightarrow> Inl (JSONDecodeError ''Expecting comma delimiter'')
                       | d # ds \<Rightarrow>
                           if d = CHR ''}'' then
                             Inr (JObj (dict_of_pairs (pairs @ [(key, v)])), ds)
                           else if d \<noteq> CHR '','' then
                             Inl (JSONDecodeError ''Expecting comma delimiter'')
                           else
                             (case skip_ws ds of
                                [] \<Rightarrow> Inl (JSONDecodeError
                                  ''Expecting property name enclosed in double quotes'')
                              | q # qs \<Rightarrow>
                                  if q = CHR 0x22
                                  then object_loop n (pairs @ [(key, v)]) qs
                                  else Inl (JSONDecodeError
                                    ''Expecting property name enclosed in double quotes''))))))"
| "array_loop 0 vals s = Inl RecursionError"
| "array_loop (Suc n) vals s =
     (case scan_once n s of
        Inl e \<Rightarrow> Inl e
      | Inr (v, rest) \<Rightarrow>
          (case skip_ws rest of
             [] \<Rightarrow> Inl (JSONDecodeError ''Expecting comma delimiter'')
           | d # ds \<Rightarrow>
               if d = CHR '']'' then Inr (JArr (vals @ [v]), ds)
               else if d \<noteq> CHR '','' then Inl (JSONDecodeError ''Expecting comma delimiter'')
               else array_loop n (vals @ [v]) (skip_ws ds)))"

text \<open>
  \<open>JSONDecoder.decode\<close>: whitespace, one value, whitespace, and nothing else.
\<close>

definition json_loads :: "string \<Rightarrow> exn + json" where
  "json_loads s =
     (case scan_once (2 * length s + 2) (skip_ws s) of
        Inl e \<Rightarrow> Inl e
      | Inr (obj, rest) \<Rightarrow>
          if skip_ws rest = [] then Inr obj else Inl (JSONDecodeError ''Extra data''))"

section \<open>client.py: extracting the tool call\<close>

text \<open>
  \<open>s.replace(old, new)\<close>: every occurrence of \<open>old\<close>, found from left to right
  without overlap, becomes \<open>new\<close>; an empty \<open>old\<close> matches before every character
  and at the end.
\<close>

function replace_from :: "string \<Rightarrow> string \<Rightarrow> string \<Rightarrow> string" where
  "replace_from [] old new = []"
| "replace_from (c # cs) old new =
     (if old \<noteq> [] \<and> prefix old (c # cs)
      then new @ replace_from (drop (length old) (c # cs)) old new
      else c # replace_from cs old new)"
  by pat_completeness auto
termination
  by (relation "measure (\<lambda>(s, old, new). length s)") auto

definition replace :: "string \<Rightarrow> string \<Rightarrow> string \<Rightarrow> string" where
  "replace s old new =
     (if old = [] then new @ concat (map (\<lambda>c. c # new) s) else replace_from s old new)"

text \<open>
  The first statement of \<open>_extract_tool_call\<close>:
  \<open>text.replace('```json', '').replace('```', '').strip()\<close>.
\<close>

definition unfenced :: "string \<Rightarrow> string" where
  "unfenced text = strip (replace (replace text ''```json'' []) ''```'' [])"

text \<open>
  The string that \<open>_extract_tool_call\<close> hands to \<open>json.loads\<close>, if the condition
  \<open>start != -1 and end > start\<close> lets it reach the call.
\<close>

definition json_str :: "string \<Rightarrow> string option" where
  "json_str text0 =
     (let text = unfenced text0;
          start = str_find text CHR ''{'';
          end = str_rfind text CHR ''}'' + 1
      in if start \<noteq> -1 \<and> end > start then Some (py_slice text start end) else None)"

text \<open>
  The \<open>try\<close> block of \<open>_extract_tool_call\<close>: \<open>Inl e\<close> when it raises \<open>e\<close>,
  \<open>Inr (Some v)\<close> when it returns \<open>v\<close>, \<open>Inr None\<close> when it ends without returning.
\<close>

definition extract_try :: "(string \<Rightarrow> exn + json) \<Rightarrow> string \<Rightarrow> exn + json option" where
  "extract_try loads text =
     (case json_str text of
        None \<Rightarrow> Inr None
      | Some js \<Rightarrow>
          (case loads js of
             Inl e \<Rightarrow> Inl e
           | Inr tool_call \<Rightarrow> Inr (Some tool_call)))"

text \<open>
  \<open>_extract_tool_call\<close>: the bare \<open>except: pass\<close> swallows whatever the block
  raises, and the function then returns \<open>None\<close>, as it does when the block ends
  without returning.
\<close>

definition extract_tool_call :: "(string \<Rightarrow> exn + json) \<Rightarrow> string \<Rightarrow> exn + json" where
  "extract_tool_call loads text =
     (case extract_try loads text of
        Inr (Some tool_call) \<Rightarrow> Inr tool_call
      | Inr None \<Rightarrow> Inr JNull
      | Inl e \<Rightarrow> Inr JNull)"

text \<open>
  The extraction as the specification words it, for comparison: from the first
  \<open>{\<close> of the cleaned text, scan forward tracking the brace depth up to the
  matching \<open>}\<close>. \<open>brace_scan d s\<close> is the number of characters of \<open>s\<close> up to and
  including the \<open>}\<close> that brings the depth \<open>d\<close> back to zero.
\<close>

fun brace_scan :: "nat \<Rightarrow> string \<Rightarrow> nat option" where
  "brace_scan d [] = None"
| "brace_scan d (c # cs) =
     (if c = CHR ''{'' then map_option Suc (brace_scan (Suc d) cs)
      else if c = CHR ''}'' then
        (if d \<le> 1 then Some 1 else map_option Suc (brace_scan (d - 1) cs))
      else map_option Suc (brace_scan d cs))"

definition spec_json_str :: "string \<Rightarrow> string option" where
  "spec_json_str text0 =
     (let text = unfenced text0;
          from_brace = dropWhile (\<lambda>c. c \<noteq> CHR ''{'') text
      in map_option (\<lambda>n. take n from_brace) (brace_scan 0 from_brace))"

section \<open>client.py: one turn\<close>

text \<open>
  What a run does that can be observed. There is one constructor for each
  \<open>print\<close> of a turn and of the loop, with the text that its f-string
  interpolates; one for each run of prints at the start of \<open>main\<close> (the banner,
  the line printed on connecting, the help lines); and one for each call that
  reaches the backend.
\<close>

datatype event =
    Print_banner
  | Print_connected
  | Print_help
  | Print_blank
  | Print_rule
  | Print_natural string
  | Print_debug string
  | Print_apology
  | Print_chat string
  | Print_farewell
  | Print_interrupted
  | Call_tool json json
  | Close
  | Session_exit
  | Client_exit

text \<open>
  The fields of \<open>MCPClient\<close> that the control flow tests: whether each is set
  (not \<open>None\<close>).
\<close>

record client =
  session :: bool
  session_context :: bool
  client_context :: bool

text \<open>
  What the collaborators answer during one turn of the loop: the line that
  \<open>input\<close> returns, the text of the model's answer to each of the three prompts
  (as a function of what the prompt is built from), and the text contents of
  the result of \<open>session.call_tool\<close>. Each of them can raise instead.
\<close>

record turn =
  user_line :: "exn + string"
  decision :: "string \<Rightarrow> exn + string"
  tool_result :: "json \<Rightarrow> json \<Rightarrow> exn + string list"
  natural :: "string \<Rightarrow> string \<Rightarrow> exn + string"
  chat :: "string \<Rightarrow> exn + string"

definition process_tool_call :: "client \<Rightarrow> turn \<Rightarrow> json \<Rightarrow> json \<Rightarrow> event list \<times> (exn + string)" where
  "process_tool_call self t tool_name tool_args =
     (if \<not> session self then ([], Inl (RuntimeError ''Not connected to server''))
      else
        (case tool_result t tool_name tool_args of
           Inl e \<Rightarrow> ([Call_tool tool_name tool_args], Inl e)
         | Inr content \<Rightarrow>
             (case content of
                [] \<Rightarrow> ([Call_tool tool_name tool_args], Inl (IndexError ''list index out of range''))
              | txt # _ \<Rightarrow> ([Call_tool tool_name tool_args], Inr txt))))"

definition make_natural_response :: "turn \<Rightarrow> string \<Rightarrow> string \<Rightarrow> exn + string" where
  "make_natural_response t user_query raw_data =
     (case natural t user_query raw_data of
        Inl e \<Rightarrow> Inl e
      | Inr response \<Rightarrow> Inr (strip response))"

text \<open>The \<open>try\<close> block of the tool branch of \<open>chat_with_mistral\<close>.\<close>

definition tool_try ::
  "client \<Rightarrow> turn \<Rightarrow> string \<Rightarrow> json \<Rightarrow> json \<Rightarrow> event list \<times> (exn + unit)" where
  "tool_try self t user_message tool_name tool_args =
     (case process_tool_call self t tool_name tool_args of
        (evs, Inl e) \<Rightarrow> (evs, Inl e)
      | (evs, Inr raw_data) \<Rightarrow>
          (case make_natural_response t user_message raw_data of
             Inl e \<Rightarrow> (evs, Inl e)
           | Inr natural_response \<Rightarrow> (evs @ [Print_natural natural_response], Inr ())))"

text \<open>
  The tool branch: the two subscripts and defaults that precede the \<open>try\<close>, then
  the block under \<open>except Exception\<close>.
\<close>

definition tool_branch ::
  "client \<Rightarrow> turn \<Rightarrow> string \<Rightarrow> json \<Rightarrow> event list \<times> (exn + unit)" where
  "tool_branch self t user_message tool_call =
     (case dict_item tool_call ''tool'' of
        Inl e \<Rightarrow> ([], Inl e)
      | Inr tool_name \<Rightarrow>
          (case dict_get tool_call ''arguments'' (JObj []) of
             Inl e \<Rightarrow> ([], Inl e)
           | Inr tool_args \<Rightarrow>
               (case tool_try self t user_message tool_name tool_args of
                  (evs, Inl e) \<Rightarrow>
                    if is_Exception e
                    then (evs @ [Print_debug (exn_str e), Print_apology], Inr ())
                    else (evs, Inl e)
                | (evs, Inr u) \<Rightarrow> (evs, Inr u))))"

text \<open>The \<open>else\<close> branch: general conversation without tools.\<close>

definition chat_branch :: "turn \<Rightarrow> string \<Rightarrow> event list \<times> (exn + unit)" where
  "chat_branch t user_message =
     (case chat t user_message of
        Inl e \<Rightarrow> ([], Inl e)
      | Inr response \<Rightarrow> ([Print_chat (strip response)], Inr ()))"

text \<open>
  The condition \<open>tool_call and tool_call.get('tool') != 'none'\<close>: the second
  operand is evaluated only when the first is true.
\<close>

definition wants_tool :: "json \<Rightarrow> exn + bool" where
  "wants_tool tool_call =
     (if truthy tool_call then
        (case dict_get tool_call ''tool'' JNull of
           Inl e \<Rightarrow> Inl e
         | Inr v \<Rightarrow> Inr (v \<noteq> JStr ''none''))
      else Inr False)"

definition chat_with_mistral ::
  "client \<Rightarrow> (string \<Rightarrow> exn + json) \<Rightarrow> turn \<Rightarrow> string \<Rightarrow> event list \<times> (exn + unit)" where
  "chat_with_mistral self loads t user_message =
     (case decision t user_message of
        Inl e \<Rightarrow> ([], Inl e)
      | Inr response \<Rightarrow>
          (case extract_tool_call loads response of
             Inl e \<Rightarrow> ([], Inl e)
           | Inr tool_call \<Rightarrow>
               (case wants_tool tool_call of
                  Inl e \<Rightarrow> ([], Inl e)
                | Inr True \<Rightarrow> tool_branch self t user_message tool_call
                | Inr False \<Rightarrow> chat_branch t user_message)))"

section \<open>client.py: the session\<close>

text \<open>
  What the backend answers to the steps of \<open>connect_to_server\<close> and of \<open>close\<close>.
\<close>

record backend =
  client_enter :: "exn + unit"
  session_enter :: "exn + unit"
  initialize :: "exn + unit"
  list_tools :: "exn + unit"
  session_exit :: "exn + unit"
  client_exit :: "exn + unit"

definition connect_to_server :: "backend \<Rightarrow> client \<Rightarrow> client \<times> (exn + unit)" where
  "connect_to_server b self =
     (let self1 = self\<lparr>client_context := True\<rparr> in
      case client_enter b of
        Inl e \<Rightarrow> (self1, Inl e)
      | Inr _ \<Rightarrow>
          (let self2 = self1\<lparr>session_context := True\<rparr> in
           case session_enter b of
             Inl e \<Rightarrow> (self2, Inl e)
           | Inr _ \<Rightarrow>
               (let self3 = self2\<lparr>session := True\<rparr> in
                case initialize b of
                  Inl e \<Rightarrow> (self3, Inl e)
                | Inr _ \<Rightarrow>
                    (case list_tools b of
                       Inl e \<Rightarrow> (self3, Inl e)
                     | Inr _ \<Rightarrow> (self3, Inr ())))))"

text \<open>\<open>MCPClient.close\<close>; the event \<open>Close\<close> marks its call.\<close>

definition close :: "backend \<Rightarrow> client \<Rightarrow> event list \<times> (exn + unit)" where
  "close b self =
     (case (if session_context self
            then (case session_exit b of
                    Inl e \<Rightarrow> ([Session_exit], Inl e)
                  | Inr u \<Rightarrow> ([Session_exit], Inr u))
            else ([], Inr ())) of
        (evs, Inl e) \<Rightarrow> (Close # evs, Inl e)
      | (evs, Inr _) \<Rightarrow>
          (if client_context self
           then (case client_exit b of
                   Inl e \<Rightarrow> (Close # evs @ [Client_exit], Inl e)
                 | Inr u \<Rightarrow> (Close # evs @ [Client_exit], Inr u))
           else (Close # evs, Inr ())))"

text \<open>\<open>str.lower\<close> on the characters of the model.\<close>

definition lower_char :: "char \<Rightarrow> char" where
  "lower_char c =
     (let k = (of_char c :: nat)
      in if (65 \<le> k \<and> k \<le> 90) \<or> (192 \<le> k \<and> k \<le> 222 \<and> k \<noteq> 215)
         then char_of (k + 32) else c)"

definition lower :: "string \<Rightarrow> string" where
  "lower s = map lower_char s"

text \<open>
  The \<open>while True\<close> loop of \<open>main\<close>, run against a script: one \<open>turn\<close> for each
  call of \<open>input\<close>. When the script is exhausted the standard input is at its
  end and \<open>input\<close> raises \<open>EOFError\<close>. The result is what the loop printed and
  called, and how it ended: \<open>Inr ()\<close> for \<open>break\<close>, \<open>Inl e\<close> for an exception that
  leaves the loop.
\<close>

fun main_loop ::
  "client \<Rightarrow> (string \<Rightarrow> exn + json) \<Rightarrow> turn list \<Rightarrow> event list \<times> (exn + unit)" where
  "main_loop self loads [] = ([], Inl EOFError)"
| "main_loop self loads (t # ts) =
     (case user_line t of
        Inl e \<Rightarrow> ([], Inl e)
      | Inr line \<Rightarrow>
          (let user_input = strip line in
           if lower user_input \<in> set [''quit'', ''exit'', ''bye'', ''goodbye'']
           then ([Print_farewell], Inr ())
           else if user_input = [] then main_loop self loads ts
           else
             (case chat_with_mistral self loads t user_input of
                (evs, Inl e) \<Rightarrow> (Print_blank # evs, Inl e)
              | (evs, Inr _) \<Rightarrow>
                  (case main_loop self loads ts of
                     (evs', r) \<Rightarrow> (Print_blank # evs @ [Print_rule] @ evs', r)))))"

text \<open>
  \<open>main\<close>: the connection is made before the \<open>try\<close>; \<open>except KeyboardInterrupt\<close>
  ends the run normally; the \<open>finally\<close> clause calls \<open>close\<close>, and an exception
  from \<open>close\<close> replaces the outcome of the block.
\<close>

definition main ::
  "backend \<Rightarrow> (string \<Rightarrow> exn + json) \<Rightarrow> turn list \<Rightarrow> event list \<times> (exn + unit)" where
  "main b loads script =
     (case connect_to_server b \<lparr>session = False, session_context = False,
                                client_context = False\<rparr> of
        (self, Inl e) \<Rightarrow> ([Print_banner], Inl e)
      | (self, Inr _) \<Rightarrow>
          (case main_loop self loads script of
             (evs, r) \<Rightarrow>
               (case (if r = Inl KeyboardInterrupt
                      then (evs @ [Print_interrupted], Inr ()) else (evs, r)) of
                  (evs', r') \<Rightarrow>
                    (case close b self of
                       (cevs, Inl e) \<Rightarrow>
                         ([Print_banner, Print_connected, Print_help] @ evs' @ cevs, Inl e)
                     | (cevs, Inr _) \<Rightarrow>
                         ([Print_banner, Print_connected, Print_help] @ evs' @ cevs, r')))))"

section \<open>main.py: the tools of the server\<close>

text \<open>The names under which \<open>main.py\<close> registers its three tools.\<close>

definition tool_catalog :: "string list" where
  "tool_catalog = [''get_latest_news'', ''get_college_notifications'', ''query_knowledge_base'']"

text \<open>
  The result of \<open>collection.query\<close>: its entry \<open>documents\<close> is \<open>None\<close> or one list
  of document texts for each query text.
\<close>

record query_result =
  documents :: "string list list option"

text \<open>
  \<open>query_knowledge_base\<close>. The collection is a parameter: \<open>None\<close> when the name
  \<open>collection\<close> holds no usable object, otherwise what its \<open>query\<close> method answers.
  The result is the value handed to \<open>json.dumps\<close>, whose serialisation is the
  library's.
\<close>

definition query_try ::
  "(string list \<Rightarrow> int \<Rightarrow> exn + query_result) \<Rightarrow> string \<Rightarrow> int \<Rightarrow> exn + json" where
  "query_try query query_text n_results =
     (case query [query_text] n_results of
        Inl e \<Rightarrow> Inl e
      | Inr results \<Rightarrow>
          (case documents results of
             None \<Rightarrow> Inl (TypeError ''NoneType object is not subscriptable'')
           | Some [] \<Rightarrow> Inl (IndexError ''list index out of range'')
           | Some (docs # _) \<Rightarrow> Inr (JArr (map JStr docs))))"

definition query_knowledge_base ::
  "(string list \<Rightarrow> int \<Rightarrow> exn + query_result) option \<Rightarrow> string \<Rightarrow> int \<Rightarrow> exn + json" where
  "query_knowledge_base collection query_text n_results =
     (case collection of
        None \<Rightarrow>
          Inr (JObj [(''error'', JStr ''Cannot query. ChromaDB collection is not available.'')])
      | Some query \<Rightarrow>
          (case query_try query query_text n_results of
             Inr payload \<Rightarrow> Inr payload
           | Inl e \<Rightarrow>
               if is_Exception e
               then Inr (JObj [(''error'',
                          JStr (''An error occurred during the query: '' @ exn_str e))])
               else Inl e))"

section \<open>Collaborators for the concrete runs\<close>

text \<open>
  A connected client, a backend whose steps all succeed, and turns in which
  the model answers with a given text.
\<close>

definition connected :: client where
  "connected = \<lparr>session = True, session_context = True, client_context = True\<rparr>"

definition good_backend :: backend where
  "good_backend = \<lparr>client_enter = Inr (), session_enter = Inr (), initialize = Inr (),
     list_tools = Inr (), session_exit = Inr (), client_exit = Inr ()\<rparr>"

text \<open>The model names a tool that the server does not have; the backend refuses it.\<close>

definition coffee_turn :: turn where
  \<open>coffee_turn = \<lparr>user_line = Inr ''make me a coffee'',
     decision = (\<lambda>_. Inr ''{"tool": "make_coffee"}''),
     tool_result = (\<lambda>_ _. Inl (OtherError ''Unknown tool: make_coffee'')),
     natural = (\<lambda>_ raw. Inr raw),
     chat = (\<lambda>_. Inr ''Hello!'')\<rparr>\<close>

text \<open>The model answers with the empty object.\<close>

definition empty_object_turn :: turn where
  \<open>empty_object_turn = \<lparr>user_line = Inr ''hi'',
     decision = (\<lambda>_. Inr ''{}''),
     tool_result = (\<lambda>_ _. Inr [''[]'']),
     natural = (\<lambda>_ raw. Inr raw),
     chat = (\<lambda>_. Inr ''Hello!'')\<rparr>\<close>

text \<open>The model answers with an object that has no key \<open>tool\<close>.\<close>

definition no_tool_key_turn :: turn where
  \<open>no_tool_key_turn = \<lparr>user_line = Inr ''hi'',
     decision = (\<lambda>_. Inr ''{"arguments": {}}''),
     tool_result = (\<lambda>_ _. Inr [''[]'']),
     natural = (\<lambda>_ raw. Inr raw),
     chat = (\<lambda>_. Inr ''Hello!'')\<rparr>\<close>

text \<open>The user types a sentinel; the user interrupts at the prompt.\<close>

definition quit_turn :: turn where
  "quit_turn = empty_object_turn\<lparr>user_line := Inr ''Quit ''\<rparr>"

definition interrupt_turn :: turn where
  "interrupt_turn = empty_object_turn\<lparr>user_line := Inl KeyboardInterrupt\<rparr>"

text \<open>Three collections: one answers, one fails, one is interrupted.\<close>

definition sample_query :: "string list \<Rightarrow> int \<Rightarrow> exn + query_result" where
  "sample_query texts n = Inr \<lparr>documents = Some [[''first chunk'', ''second chunk'']]\<rparr>"

definition failing_query :: "string list \<Rightarrow> int \<Rightarrow> exn + query_result" where
  "failing_query texts n = Inl (OtherError ''connection refused'')"

definition interrupted_query :: "string list \<Rightarrow> int \<Rightarrow> exn + query_result" where
  "interrupted_query texts n = Inl KeyboardInterrupt"

section \<open>The chunker: whitespace and windows\<close>

lemma strip_decomp:
  "\<exists>l r. w = l @ strip w @ r \<and> (\<forall>x\<in>set l. isspace x) \<and> (\<forall>x\<in>set r. isspace x)"
proof -
  let ?l = "takeWhile isspace w"
  let ?u = "dropWhile isspace w"
  let ?r = "rev (takeWhile isspace (rev ?u))"
  have "rev (takeWhile isspace (rev ?u) @ dropWhile isspace (rev ?u)) = rev (rev ?u)"
    by (simp only: takeWhile_dropWhile_id)
  then have u: "?u = strip w @ ?r"
    by (simp only: rev_append rev_rev_ident strip_def)
  have "w = ?l @ ?u" by simp
  with u have "w = ?l @ strip w @ ?r" by simp
  moreover have "\<forall>x\<in>set ?l. isspace x" by (auto dest: set_takeWhileD)
  moreover have "\<forall>x\<in>set ?r. isspace x" by (auto dest: set_takeWhileD)
  ultimately show ?thesis by blast
qed

lemma strip_ends:
  "strip w \<noteq> [] \<Longrightarrow> \<not> isspace (hd (strip w)) \<and> \<not> isspace (last (strip w))"
proof -
  assume ne: "strip w \<noteq> []"
  let ?u = "dropWhile isspace w"
  let ?v = "dropWhile isspace (rev ?u)"
  have sv: "strip w = rev ?v" by (simp add: strip_def)
  with ne have vne: "?v \<noteq> []" by simp
  then have "\<not> isspace (hd ?v)" by (rule hd_dropWhile)
  with vne sv have l: "\<not> isspace (last (strip w))" by (simp add: last_rev)
  have une: "?u \<noteq> []"
  proof
    assume "?u = []"
    then have "?v = []" by (simp only: rev.simps dropWhile.simps)
    with vne show False by simp
  qed
  then have hu: "\<not> isspace (hd ?u)" by (rule hd_dropWhile)
  have "rev (takeWhile isspace (rev ?u) @ ?v) = rev (rev ?u)"
    by (simp only: takeWhile_dropWhile_id)
  then have "?u = strip w @ rev (takeWhile isspace (rev ?u))"
    by (simp only: rev_append rev_rev_ident strip_def)
  with ne have "hd ?u = hd (strip w)" by (metis hd_append2)
  with hu l show ?thesis by simp
qed

lemma strip_fixed:
  assumes "m \<noteq> []" "\<not> isspace (hd m)" "\<not> isspace (last m)"
  shows "strip m = m"
proof -
  from assms have a: "dropWhile isspace m = m" by (cases m) auto
  from assms have "rev m \<noteq> []" "\<not> isspace (hd (rev m))" by (auto simp: hd_rev)
  then have "dropWhile isspace (rev m) = rev m" by (cases "rev m") auto
  with a show ?thesis by (simp add: strip_def)
qed

lemma strip_idem: "strip (strip w) = strip w"
proof (cases "strip w = []")
  case True
  have "strip [] = []" by (simp add: strip_def)
  with True show ?thesis by simp
next
  case False
  then show ?thesis using strip_ends[OF False] by (intro strip_fixed) auto
qed

lemma window_chunk:
  assumes t: "text = p @ w @ q" and lo: "length p \<le> i" and hi: "i < length p + length w"
    and ns: "\<not> isspace (text ! i)"
  shows "\<exists>pre post. text = pre @ strip w @ post \<and> length pre \<le> i \<and>
           i < length pre + length (strip w)"
proof -
  from strip_decomp[of w] obtain l r where
    w: "w = l @ strip w @ r" and l: "\<forall>x\<in>set l. isspace x" and r: "\<forall>x\<in>set r. isspace x"
    by blast
  have len: "length w = length l + length (strip w) + length r"
    using arg_cong[OF w, of length] by simp
  from hi lo have kw: "i - length p < length w" by arith
  from t lo kw have ti: "text ! i = w ! (i - length p)" by (simp add: nth_append)
  have a: "length l \<le> i - length p"
  proof (rule ccontr)
    assume "\<not> length l \<le> i - length p"
    then have k: "i - length p < length l" by simp
    have "w ! (i - length p) = (l @ strip w @ r) ! (i - length p)" using w by simp
    also have "\<dots> = l ! (i - length p)" using k by (simp add: nth_append)
    finally have "w ! (i - length p) \<in> set l" using k by simp
    with l ti ns show False by simp
  qed
  have b: "i - length p < length l + length (strip w)"
  proof (rule ccontr)
    assume "\<not> i - length p < length l + length (strip w)"
    then have k: "length l + length (strip w) \<le> i - length p" by simp
    from hi lo len k have k2: "i - length p - (length l + length (strip w)) < length r" by arith
    have "w ! (i - length p) = ((l @ strip w) @ r) ! (i - length p)" using w by simp
    also have "\<dots> = r ! (i - length p - (length l + length (strip w)))"
      using k by (simp only: nth_append length_append) simp
    finally have "w ! (i - length p) \<in> set r" using k2 by simp
    with r ti ns show False by simp
  qed
  from t w have "text = (p @ l) @ strip w @ (r @ q)" by simp
  moreover from a lo have "length (p @ l) \<le> i" by simp
  moreover from b lo have "i < length (p @ l) + length (strip w)" by simp
  ultimately show ?thesis by blast
qed

lemma window_split:
  assumes "0 \<le> start" "start < int (length text)" "0 < chunk_size"
  defines "e \<equiv> min (start + chunk_size) (int (length text))"
  shows "text = take (nat start) text @ py_slice text start e @ drop (nat e) text"
    and "length (py_slice text start e) = nat (e - start)"
proof -
  from assms have se: "start \<le> e" "e \<le> int (length text)" "0 \<le> e" by (auto simp: e_def)
  with assms(1,2) have sl: "py_slice text start e = take (nat e - nat start) (drop (nat start) text)"
    by (simp add: py_slice_def Let_def nat_diff_distrib)
  have "drop (nat start) text = take (nat e - nat start) (drop (nat start) text)
          @ drop (nat e - nat start) (drop (nat start) text)"
    by (simp only: append_take_drop_id)
  also have "drop (nat e - nat start) (drop (nat start) text) = drop (nat e) text"
    using se assms(1) by (simp add: nat_le_eq_zle)
  finally have "drop (nat start) text = py_slice text start e @ drop (nat e) text"
    using sl by simp
  then have "take (nat start) text @ drop (nat start) text
      = take (nat start) text @ py_slice text start e @ drop (nat e) text" by simp
  then show "text = take (nat start) text @ py_slice text start e @ drop (nat e) text" by simp
  from sl se assms(1,2) show "length (py_slice text start e) = nat (e - start)"
    by (simp add: nat_diff_distrib) 
qed

section \<open>The chunker: termination, coverage, and the missing guard\<close>

text \<open>
  With \<open>0 \<le> overlap < chunk_size\<close> the loop returns from every start position
  \<open>start \<ge> 0\<close>: the distance to the end of the text decreases. What it appends
  are trimmed, non-empty substrings of the text, and every character from
  \<open>start\<close> on that is not whitespace lies inside one of them.
\<close>

lemma split_text_loop_spec:
  assumes O: "0 \<le> overlap" "overlap < chunk_size"
  shows "0 \<le> start \<Longrightarrow>
    \<exists>new. split_text_loop text chunk_size overlap start chunks = Some (chunks @ new) \<and>
      (\<forall>c\<in>set new. c \<noteq> [] \<and> strip c = c \<and> sublist c text) \<and>
      (\<forall>i<length text. start \<le> int i \<and> \<not> isspace (text ! i) \<longrightarrow>
         (\<exists>c\<in>set new. \<exists>pre post. text = pre @ c @ post \<and> length pre \<le> i \<and>
            i < length pre + length c))"
proof (induction "nat (int (length text) - start)" arbitrary: start chunks rule: less_induct)
  case less
  show ?case
  proof (cases "start < int (length text)")
    case False
    then have "split_text_loop text chunk_size overlap start chunks = Some (chunks @ [])"
      by (subst split_text_loop.simps) simp
    moreover from False have "\<forall>i<length text. \<not> start \<le> int i" by auto
    ultimately show ?thesis by (intro exI[of _ "[]"]) simp
  next
    case True
    define e where "e = min (start + chunk_size) (int (length text))"
    define w where "w = py_slice text start e"
    define chunk where "chunk = strip w"
    define start' where "start' = start + (chunk_size - overlap)"
    define chunks' where "chunks' = (if chunk \<noteq> [] then chunks @ [chunk] else chunks)"
    from O have S: "0 < chunk_size" by simp
    have split: "text = take (nat start) text @ w @ drop (nat e) text"
      and lw: "length w = nat (e - start)"
      using window_split[OF less.prems True S] by (simp_all add: w_def e_def)
    have step: "split_text_loop text chunk_size overlap start chunks
                  = split_text_loop text chunk_size overlap start' chunks'"
      using True
      by (subst split_text_loop.simps)
         (simp add: Let_def e_def w_def chunk_def start'_def chunks'_def)
    from O less.prems have s': "0 \<le> start'" "start < start'" by (simp_all add: start'_def)
    with True have "nat (int (length text) - start') < nat (int (length text) - start)"
      by simp
    from less.hyps[OF this s'(1), of chunks'] obtain new where
      r: "split_text_loop text chunk_size overlap start' chunks' = Some (chunks' @ new)"
      and g: "\<forall>c\<in>set new. c \<noteq> [] \<and> strip c = c \<and> sublist c text"
      and c: "\<forall>i<length text. start' \<le> int i \<and> \<not> isspace (text ! i) \<longrightarrow>
         (\<exists>c\<in>set new. \<exists>pre post. text = pre @ c @ post \<and> length pre \<le> i \<and>
            i < length pre + length c)"
      by blast
    define new' where "new' = (if chunk \<noteq> [] then chunk # new else new)"
    have app: "chunks' @ new = chunks @ new'" by (simp add: chunks'_def new'_def)
    have sub: "sublist chunk text"
    proof -
      from strip_decomp[of w] obtain l r where "w = l @ chunk @ r"
        unfolding chunk_def by blast
      with split have "text = (take (nat start) text @ l) @ chunk @ (r @ drop (nat e) text)"
        by simp
      then show ?thesis unfolding sublist_def by blast
    qed
    have good: "\<forall>c\<in>set new'. c \<noteq> [] \<and> strip c = c \<and> sublist c text"
      using g sub by (auto simp: new'_def chunk_def strip_idem)
    have cov: "\<exists>c\<in>set new'. \<exists>pre post. text = pre @ c @ post \<and> length pre \<le> i \<and>
            i < length pre + length c"
      if i: "i < length text" "start \<le> int i" "\<not> isspace (text ! i)" for i
    proof (cases "start' \<le> int i")
      case True
      with c i obtain c' where c': "c' \<in> set new"
        "\<exists>pre post. text = pre @ c' @ post \<and> length pre \<le> i \<and> i < length pre + length c'"
        by blast
      from c'(1) have "c' \<in> set new'" by (simp add: new'_def)
      with c'(2) show ?thesis by blast
    next
      case False
      with O have "int i < start + chunk_size" by (simp add: start'_def)
      with i have ie: "int i < e" by (simp add: e_def)
      from less.prems i have lo: "length (take (nat start) text) \<le> i" by simp
      from less.prems True i ie lw have hi: "i < length (take (nat start) text) + length w"
        by (simp add: min_def) arith
      from window_chunk[OF split lo hi i(3)] obtain pre post where
        p: "text = pre @ chunk @ post" "length pre \<le> i" "i < length pre + length chunk"
        unfolding chunk_def by blast
      then have "chunk \<noteq> []" by auto
      then have "chunk \<in> set new'" by (simp add: new'_def)
      with p show ?thesis by blast
    qed
    from step r app have "split_text_loop text chunk_size overlap start chunks = Some (chunks @ new')"
      by simp
    with good cov show ?thesis by blast
  qed
qed

text \<open>
  With \<open>overlap \<ge> chunk_size\<close> the start position never increases; on a text that
  is not empty the loop is entered and never left.
\<close>

lemma split_text_loop_stuck:
  assumes "split_text_loop text chunk_size overlap start chunks = Some r"
  shows "\<not> (start \<le> 0 \<and> text \<noteq> [] \<and> chunk_size \<le> overlap)"
proof (rule split_text_loop.raw_induct
    [where P = "\<lambda>t S ov s cs r. \<not> (s \<le> 0 \<and> t \<noteq> [] \<and> S \<le> ov)", OF _ assms])
  fix loop :: "string \<Rightarrow> int \<Rightarrow> int \<Rightarrow> int \<Rightarrow> string list \<Rightarrow> string list option"
  fix t S ov s cs r
  assume IH: "\<And>t S ov s cs r. loop t S ov s cs = Some r \<Longrightarrow>
                \<not> (s \<le> 0 \<and> t \<noteq> [] \<and> S \<le> ov)"
  assume body: "(if s < int (length t)
      then let end = min (s + S) (int (length t));
               chunk = strip (py_slice t s end)
           in loop t S ov (s + (S - ov)) (if chunk \<noteq> [] then cs @ [chunk] else cs)
      else Some cs) = Some r"
  show "\<not> (s \<le> 0 \<and> t \<noteq> [] \<and> S \<le> ov)"
  proof
    assume inv: "s \<le> 0 \<and> t \<noteq> [] \<and> S \<le> ov"
    then have lt: "s < int (length t)" by (cases t) auto
    with body obtain cs' where "loop t S ov (s + (S - ov)) cs' = Some r"
      by (auto simp: Let_def)
    from IH[OF this] inv show False by auto
  qed
qed

text \<open>
  C2. For every text and every configuration with \<open>0 < overlap < chunk_size\<close> (and
  also with \<open>overlap = 0\<close>) the chunker returns; every character of the text that
  is not whitespace lies, at its position, inside one of the returned chunks; and
  every returned chunk is non-empty, trimmed, and a substring of the text.
\<close>

theorem split_text_coverage:
  assumes "0 \<le> overlap" "overlap < chunk_size"
  shows "\<exists>chunks. split_text text chunk_size overlap = Some chunks \<and>
      (\<forall>i<length text. \<not> isspace (text ! i) \<longrightarrow>
         (\<exists>c\<in>set chunks. \<exists>pre post. text = pre @ c @ post \<and> length pre \<le> i \<and>
            i < length pre + length c)) \<and>
      (\<forall>c\<in>set chunks. c \<noteq> [] \<and> strip c = c \<and> sublist c text)"
  using split_text_loop_spec[OF assms, of 0 "text" "[]"]
  by (auto simp: split_text_def)

theorem split_text_coverage_witness:
  "(0::int) \<le> 1 \<and> (1::int) < 3 \<and> \<not> isspace (''ab cd'' ! 0) \<and>
   split_text ''ab cd'' 3 1 = Some [''ab'', ''cd'', ''d''] \<and>
   (\<exists>chunks. split_text ''ab cd'' 3 1 = Some chunks \<and>
      (\<forall>i<length ''ab cd''. \<not> isspace (''ab cd'' ! i) \<longrightarrow>
         (\<exists>c\<in>set chunks. \<exists>pre post. ''ab cd'' = pre @ c @ post \<and> length pre \<le> i \<and>
            i < length pre + length c)) \<and>
      (\<forall>c\<in>set chunks. c \<noteq> [] \<and> strip c = c \<and> sublist c ''ab cd''))"
proof -
  have a: "\<not> isspace (''ab cd'' ! 0)" by (simp add: isspace_def)
  have b: "split_text ''ab cd'' 3 1 = Some [''ab'', ''cd'', ''d'']" by code_simp
  from a b split_text_coverage[of 1 3 "''ab cd''"] show ?thesis by simp
qed

text \<open>
  C1 (the code does not do this). The claim asks that \<open>overlap \<ge> chunk_size\<close> be
  rejected with a configuration error before the loop. \<open>split_text\<close> has no such
  check: on the empty text it returns no chunks and reports nothing, and on
  every other text it never returns.
\<close>

theorem split_text_unguarded:
  assumes "chunk_size \<le> overlap"
  shows "split_text text chunk_size overlap = (if text = [] then Some [] else None)"
proof (cases "text = []")
  case True
  then show ?thesis by (simp add: split_text_def split_text_loop.simps)
next
  case False
  have "split_text text chunk_size overlap = None"
  proof (cases "split_text text chunk_size overlap")
    case None
    then show ?thesis .
  next
    case (Some r)
    then have "split_text_loop text chunk_size overlap 0 [] = Some r"
      by (simp add: split_text_def)
    from split_text_loop_stuck[OF this] False assms show ?thesis by simp
  qed
  with False show ?thesis by simp
qed

theorem split_text_unguarded_witness:
  "(1::int) \<le> 1 \<and> split_text ''a'' 1 1 = None \<and> split_text [] 1 1 = Some []"
  using split_text_unguarded[of 1 1 "''a''"] split_text_unguarded[of 1 1 "[]"] by simp

section \<open>Chunk ids\<close>

text \<open>
  The decimal digits of an index determine it, and the separator before them is
  not a digit: an id determines its base name and its index.
\<close>

lemma of_char_digit_char: "d < 10 \<Longrightarrow> (of_char (digit_char d) :: nat) = 48 + d"
  by (simp add: digit_char_def)

lemma is_digit_digit_char: "d < 10 \<Longrightarrow> is_digit (digit_char d)"
  by (simp add: is_digit_def of_char_digit_char)

lemma str_nat_digits: "\<forall>c\<in>set (str_nat n). is_digit c"
proof (induction n rule: str_nat.induct)
  case (1 n)
  show ?case
  proof (cases "n < 10")
    case True
    then show ?thesis by (subst str_nat.simps) (simp add: is_digit_digit_char)
  next
    case False
    with 1 show ?thesis by (subst str_nat.simps) (simp add: is_digit_digit_char)
  qed
qed

lemma int_of_digits_str_nat: "int_of_digits (str_nat n) = int n"
proof (induction n rule: str_nat.induct)
  case (1 n)
  show ?case
  proof (cases "n < 10")
    case True
    then show ?thesis
      by (subst str_nat.simps) (simp add: int_of_digits_def of_char_digit_char)
  next
    case False
    then have ih: "int_of_digits (str_nat (n div 10)) = int (n div 10)" using 1 by simp
    have "int (10 * (n div 10) + n mod 10) = int n" by simp
    then have dm: "10 * int (n div 10) + int (n mod 10) = int n"
      by (simp only: of_nat_add of_nat_mult of_nat_numeral)
    from False ih dm show ?thesis
      by (subst str_nat.simps) (simp add: int_of_digits_def of_char_digit_char)
  qed
qed

lemma str_nat_inj:
  assumes "str_nat m = str_nat n"
  shows "m = n"
proof -
  have "int m = int_of_digits (str_nat m)" by (simp only: int_of_digits_str_nat)
  also have "\<dots> = int_of_digits (str_nat n)" by (simp only: assms)
  also have "\<dots> = int n" by (rule int_of_digits_str_nat)
  finally show ?thesis by simp
qed

lemma underscore_not_digit: "\<not> is_digit CHR ''_''"
  by (simp add: is_digit_def)

lemma takeWhile_stop:
  "\<forall>c\<in>set u. P c \<Longrightarrow> \<not> P x \<Longrightarrow> takeWhile P (u @ x # r) = u"
  by (induction u) auto

lemma chunk_id_inj:
  assumes "chunk_id b i = chunk_id b' j"
  shows "b = b' \<and> i = j"
proof -
  let ?u = "str_nat i" and ?v = "str_nat j"
  from assms have eq: "(b @ ''_chunk'') @ CHR ''_'' # ?u = (b' @ ''_chunk'') @ CHR ''_'' # ?v"
    by (simp add: chunk_id_def)
  then have "rev ((b @ ''_chunk'') @ CHR ''_'' # ?u) = rev ((b' @ ''_chunk'') @ CHR ''_'' # ?v)"
    by (rule arg_cong)
  then have r: "rev ?u @ CHR ''_'' # rev (b @ ''_chunk'') = rev ?v @ CHR ''_'' # rev (b' @ ''_chunk'')"
    by (simp only: rev_append rev.simps append_assoc append_Cons append_Nil)
  have du: "\<forall>c\<in>set (rev ?u). is_digit c" using str_nat_digits[of i] by simp
  have dv: "\<forall>c\<in>set (rev ?v). is_digit c" using str_nat_digits[of j] by simp
  have tu: "takeWhile is_digit (rev ?u @ CHR ''_'' # rev (b @ ''_chunk'')) = rev ?u"
    by (rule takeWhile_stop[OF du underscore_not_digit])
  have tv: "takeWhile is_digit (rev ?v @ CHR ''_'' # rev (b' @ ''_chunk'')) = rev ?v"
    by (rule takeWhile_stop[OF dv underscore_not_digit])
  from r tu tv have "rev ?u = rev ?v" by (simp only:)
  then have uv: "?u = ?v" by (simp only: rev_is_rev_conv)
  then have "i = j" by (rule str_nat_inj)
  moreover from eq uv have "b = b'" by simp
  ultimately show ?thesis by simp
qed

lemma distinct_chunk_ids: "distinct (map (chunk_id b) [0..<n])"
  by (rule distinct_map[THEN iffD2]) (auto simp: inj_on_def dest: chunk_id_inj)

lemma add_pdf_args_returns:
  "\<exists>chunks. add_pdf_args pdf_path pdf_text =
     Some (chunks, map (chunk_id (fst (splitext (basename pdf_path)))) [0..<length chunks])"
proof -
  have "\<exists>new. split_text_loop pdf_text 1000 100 0 [] = Some ([] @ new) \<and>
      (\<forall>c\<in>set new. c \<noteq> [] \<and> strip c = c \<and> sublist c pdf_text) \<and>
      (\<forall>i<length pdf_text. 0 \<le> int i \<and> \<not> isspace (pdf_text ! i) \<longrightarrow>
         (\<exists>c\<in>set new. \<exists>pre post. pdf_text = pre @ c @ post \<and> length pre \<le> i \<and>
            i < length pre + length c))"
    by (rule split_text_loop_spec) simp_all
  then obtain new where "split_text pdf_text 1000 100 = Some new"
    by (auto simp: split_text_def)
  then show ?thesis by (simp add: add_pdf_args_def Let_def)
qed

text \<open>
  What the derivation of the ids does achieve: the ids of an ingestion are
  \<open>chunk_id base_name 0, chunk_id base_name 1, ...\<close> for the base name of the
  source, they are pairwise distinct, and two ids are equal only for the same
  base name and the same index.
\<close>

lemma chunk_ids_by_base_name:
  "(\<exists>chunks. add_pdf_args pdf_path pdf_text =
      Some (chunks, map (chunk_id (fst (splitext (basename pdf_path)))) [0..<length chunks])) \<and>
   distinct (map (chunk_id b) [0..<n]) \<and>
   (chunk_id b i = chunk_id b' j \<longleftrightarrow> b = b' \<and> i = j)"
proof (intro conjI)
  show "\<exists>chunks. add_pdf_args pdf_path pdf_text =
      Some (chunks, map (chunk_id (fst (splitext (basename pdf_path)))) [0..<length chunks])"
    by (rule add_pdf_args_returns)
  show "distinct (map (chunk_id b) [0..<n])" by (rule distinct_chunk_ids)
  show "chunk_id b i = chunk_id b' j \<longleftrightarrow> b = b' \<and> i = j"
    using chunk_id_inj by blast
qed

text \<open>
  C8 (the code does not do this). The claim asks that ids derived from distinct
  sources do not collide, and the comment above the derivation says the same.
  The id is built from the file name without directory and extension: two
  distinct sources whose paths differ only in the directory get the same ids.
\<close>

theorem chunk_ids_collide:
  "''papers/x.pdf'' \<noteq> ''drafts/x.pdf'' \<and>
   add_pdf_args ''papers/x.pdf'' ''hello'' = Some ([''hello''], [''x_chunk_0'']) \<and>
   add_pdf_args ''drafts/x.pdf'' ''hello'' = Some ([''hello''], [''x_chunk_0''])"
  by code_simp

section \<open>Extraction: from the first opening brace to the last closing brace\<close>

lemma str_find_notin: "c \<notin> set s \<Longrightarrow> str_find s c = -1"
  by (induction s) auto

lemma str_find_first: "c \<notin> set pre \<Longrightarrow> str_find (pre @ c # rest) c = int (length pre)"
  by (induction pre) (auto simp: Let_def)

lemma str_rfind_notin: "c \<notin> set s \<Longrightarrow> str_rfind s c = -1"
  by (simp add: str_rfind_def str_find_notin)

lemma str_rfind_last: "c \<notin> set post \<Longrightarrow> str_rfind (pre @ c # post) c = int (length pre)"
proof -
  assume "c \<notin> set post"
  then have "c \<notin> set (rev post)" by simp
  then have "str_find (rev post @ c # rev pre) c = int (length (rev post))"
    by (rule str_find_first)
  then show ?thesis by (simp add: str_rfind_def)
qed

lemma json_str_span:
  assumes t: "unfenced text = pre @ CHR ''{'' # mid @ CHR ''}'' # post"
    and pre: "CHR ''{'' \<notin> set pre" and post: "CHR ''}'' \<notin> set post"
  shows "json_str text = Some (CHR ''{'' # mid @ [CHR ''}''])"
proof -
  have s: "str_find (unfenced text) CHR ''{'' = int (length pre)"
    unfolding t using pre by (rule str_find_first)
  have "unfenced text = (pre @ CHR ''{'' # mid) @ CHR ''}'' # post" using t by simp
  then have e: "str_rfind (unfenced text) CHR ''}'' = int (length (pre @ CHR ''{'' # mid))"
    using str_rfind_last[OF post, of "pre @ CHR ''{'' # mid"] by simp
  have sl: "py_slice (unfenced text) (int (length pre)) (int (length pre) + int (length mid) + 2)
              = CHR ''{'' # mid @ [CHR ''}'']"
  proof -
    have n: "nat (int (length mid) + 2) = Suc (length mid + 1)" by simp
    have "take (Suc (length mid + 1)) (CHR ''{'' # (mid @ [CHR ''}'']) @ post)
            = CHR ''{'' # mid @ [CHR ''}'']"
      by (simp only: take_Suc_Cons) simp
    with n show ?thesis unfolding t by (simp add: py_slice_def Let_def)
  qed
  show ?thesis
    unfolding json_str_def Let_def s e using sl by (simp add: add.commute add.left_commute)
qed

lemma replace_from_subset: "set (replace_from s old []) \<subseteq> set s"
proof (induction s old "[] :: string" rule: replace_from.induct)
  case (1 old)
  show ?case by simp
next
  case (2 c cs old)
  show ?case
  proof (cases "old \<noteq> [] \<and> prefix old (c # cs)")
    case True
    with 2(1) have "set (replace_from (drop (length old) (c # cs)) old []) \<subseteq> set (drop (length old) (c # cs))"
      by simp
    also have "\<dots> \<subseteq> set (c # cs)" by (rule set_drop_subset)
    finally show ?thesis using True by simp
  next
    case False
    with 2(2) show ?thesis by auto
  qed
qed

lemma replace_subset: "set (replace s old []) \<subseteq> set s"
  using replace_from_subset[of s old] by (auto simp: replace_def)

lemma strip_subset: "set (strip w) \<subseteq> set w"
proof -
  from strip_decomp[of w] obtain l r where "w = l @ strip w @ r" by blast
  then have "set w = set l \<union> set (strip w) \<union> set r"
    by (metis set_append sup_assoc)
  then show ?thesis by blast
qed

lemma unfenced_subset: "set (unfenced text) \<subseteq> set text"
  unfolding unfenced_def
  using strip_subset replace_subset by (meson subset_trans)

lemma json_str_no_brace: "CHR ''{'' \<notin> set text \<Longrightarrow> json_str text = None"
proof -
  assume "CHR ''{'' \<notin> set text"
  with unfenced_subset[of "text"] have "CHR ''{'' \<notin> set (unfenced text)" by blast
  then have "str_find (unfenced text) CHR ''{'' = -1" by (rule str_find_notin)
  then show ?thesis by (simp add: json_str_def Let_def)
qed

lemma json_str_SomeD:
  assumes "json_str text = Some js"
  shows "\<exists>pre mid post. unfenced text = pre @ CHR ''{'' # mid @ CHR ''}'' # post \<and>
           CHR ''{'' \<notin> set pre \<and> CHR ''}'' \<notin> set post \<and> js = CHR ''{'' # mid @ [CHR ''}'']"
proof -
  let ?t = "unfenced text"
  from assms have s: "str_find ?t CHR ''{'' \<noteq> -1"
    and e: "str_rfind ?t CHR ''}'' + 1 > str_find ?t CHR ''{''"
    by (auto simp: json_str_def Let_def split: if_splits)
  from s have "CHR ''{'' \<in> set ?t" using str_find_notin by blast
  then obtain pre rest where t1: "?t = pre @ CHR ''{'' # rest" and pre: "CHR ''{'' \<notin> set pre"
    by (meson split_list_first)
  have sv: "str_find ?t CHR ''{'' = int (length pre)"
    unfolding t1 using pre by (rule str_find_first)
  have "CHR ''}'' \<in> set ?t"
  proof (rule ccontr)
    assume "CHR ''}'' \<notin> set ?t"
    then have "str_rfind ?t CHR ''}'' = -1" by (rule str_rfind_notin)
    with e sv show False by simp
  qed
  then obtain xs post where t2: "?t = xs @ CHR ''}'' # post" and post: "CHR ''}'' \<notin> set post"
    by (meson split_list_last)
  have ev: "str_rfind ?t CHR ''}'' = int (length xs)"
    unfolding t2 using post by (rule str_rfind_last)
  from e sv ev have le: "length pre \<le> length xs" by simp
  from t1 t2 have "pre @ CHR ''{'' # rest = xs @ CHR ''}'' # post" by simp
  then obtain us where
    "(pre = xs @ us \<and> us @ CHR ''{'' # rest = CHR ''}'' # post) \<or>
     (pre @ us = xs \<and> CHR ''{'' # rest = us @ CHR ''}'' # post)"
    unfolding append_eq_append_conv2 by blast
  then have "pre @ us = xs \<and> CHR ''{'' # rest = us @ CHR ''}'' # post"
  proof
    assume a: "pre = xs @ us \<and> us @ CHR ''{'' # rest = CHR ''}'' # post"
    with le have "us = []" by simp
    with a show ?thesis by simp
  next
    assume "pre @ us = xs \<and> CHR ''{'' # rest = us @ CHR ''}'' # post"
    then show ?thesis .
  qed
  then have xs: "xs = pre @ us" and r: "CHR ''{'' # rest = us @ CHR ''}'' # post" by simp_all
  from r obtain mid where us: "us = CHR ''{'' # mid"
    by (cases us) auto
  with r have rest: "rest = mid @ CHR ''}'' # post" by simp
  from t1 rest have t: "?t = pre @ CHR ''{'' # mid @ CHR ''}'' # post" by simp
  from json_str_span[OF t pre post] assms have "js = CHR ''{'' # mid @ [CHR ''}'']" by simp
  with t pre post show ?thesis by blast
qed

lemma extract_tool_call_eq:
  "extract_tool_call loads text =
     (case json_str text of
        None \<Rightarrow> Inr JNull
      | Some js \<Rightarrow> (case loads js of Inl e \<Rightarrow> Inr JNull | Inr v \<Rightarrow> Inr v))"
  by (simp add: extract_tool_call_def extract_try_def split: option.splits sum.splits)

text \<open>
  When a \<open>}\<close> closes a candidate object that starts at the first \<open>{\<close>, what is
  extracted is that candidate exactly when no \<open>}\<close> follows it; otherwise the
  extracted string runs on to the last \<open>}\<close> of what follows.
\<close>

lemma json_str_after_object:
  assumes u: "unfenced text = pre @ CHR ''{'' # mid @ CHR ''}'' # frag"
    and pre: "CHR ''{'' \<notin> set pre"
  shows "(json_str text = Some (CHR ''{'' # mid @ [CHR ''}'']) \<longleftrightarrow> CHR ''}'' \<notin> set frag) \<and>
         (CHR ''}'' \<in> set frag \<longrightarrow>
            (\<exists>f1 f2. frag = f1 @ CHR ''}'' # f2 \<and> CHR ''}'' \<notin> set f2 \<and>
               json_str text = Some (CHR ''{'' # mid @ CHR ''}'' # f1 @ [CHR ''}''])))"
proof -
  have far: "\<exists>f1 f2. frag = f1 @ CHR ''}'' # f2 \<and> CHR ''}'' \<notin> set f2 \<and>
               json_str text = Some (CHR ''{'' # mid @ CHR ''}'' # f1 @ [CHR ''}''])"
    if "CHR ''}'' \<in> set frag"
  proof -
    from that obtain f1 f2 where fr: "frag = f1 @ CHR ''}'' # f2" and f2: "CHR ''}'' \<notin> set f2"
      by (meson split_list_last)
    from u fr have "unfenced text = pre @ CHR ''{'' # (mid @ CHR ''}'' # f1) @ CHR ''}'' # f2"
      by simp
    from json_str_span[OF this pre f2]
    have "json_str text = Some (CHR ''{'' # mid @ CHR ''}'' # f1 @ [CHR ''}''])" by simp
    with fr f2 show ?thesis by blast
  qed
  have near: "json_str text = Some (CHR ''{'' # mid @ [CHR ''}''])" if "CHR ''}'' \<notin> set frag"
    using json_str_span[OF u pre that] .
  have "CHR ''}'' \<notin> set frag" if j: "json_str text = Some (CHR ''{'' # mid @ [CHR ''}''])"
  proof
    assume "CHR ''}'' \<in> set frag"
    from far[OF this] j obtain f1 where
      "CHR ''{'' # mid @ [CHR ''}''] = CHR ''{'' # mid @ CHR ''}'' # f1 @ [CHR ''}'']"
      by auto
    then show False by simp
  qed
  with near far show ?thesis by blast
qed

lemma object_then_array:
  \<open>extract_tool_call json_loads ''{"tool":"none"} [1, 2]'' = Inr (JObj [(''tool'', JStr ''none'')])\<close>
  by code_simp

lemma object_then_object:
  \<open>extract_tool_call json_loads ''{"tool":"none"} {"x":1}'' = Inr JNull\<close>
  by code_simp

lemma two_fragments_span:
  \<open>json_str ''{"tool":"none"} {"x":1}'' = Some ''{"tool":"none"} {"x":1}''\<close>
  by code_simp

lemma two_fragments_unfenced:
  \<open>unfenced ''{"tool":"none"} {"x":1}'' = ''{"tool":"none"} {"x":1}''\<close>
  by code_simp

text \<open>
  C3 (as the code has it). After removing the fence markers and the surrounding
  whitespace, the extractor takes the text from the first \<open>{\<close> to the last \<open>}\<close>
  and hands exactly that to the decoder; it takes nothing when there is no
  \<open>{\<close> or no \<open>}\<close> after the first \<open>{\<close>. The result is the decoded value, or
  \<open>None\<close> when nothing was taken or the decoder rejected it. No brace depth is
  tracked. For a complete object followed by a second fragment, what is decoded
  is the first object exactly when the fragment contains no \<open>}\<close>; otherwise it
  runs to the last \<open>}\<close> of the fragment. So \<open>{"tool":"none"} {"x":1}\<close> gives
  \<open>None\<close>, and \<open>{"tool":"none"} [1, 2]\<close> gives the first object.
\<close>

theorem extract_first_to_last_brace:
  \<open>(json_str text = Some js \<longleftrightarrow>
      (\<exists>pre mid post. unfenced text = pre @ CHR ''{'' # mid @ CHR ''}'' # post \<and>
         CHR ''{'' \<notin> set pre \<and> CHR ''}'' \<notin> set post \<and> js = CHR ''{'' # mid @ [CHR ''}''])) \<and>
   extract_tool_call loads text =
     (case json_str text of
        None \<Rightarrow> Inr JNull
      | Some js \<Rightarrow> (case loads js of Inl e \<Rightarrow> Inr JNull | Inr v \<Rightarrow> Inr v)) \<and>
   (\<forall>pre mid frag.
      unfenced text = pre @ CHR ''{'' # mid @ CHR ''}'' # frag \<and> CHR ''{'' \<notin> set pre \<longrightarrow>
      (json_str text = Some (CHR ''{'' # mid @ [CHR ''}'']) \<longleftrightarrow> CHR ''}'' \<notin> set frag) \<and>
      (CHR ''}'' \<in> set frag \<longrightarrow>
         (\<exists>f1 f2. frag = f1 @ CHR ''}'' # f2 \<and> CHR ''}'' \<notin> set f2 \<and>
            json_str text = Some (CHR ''{'' # mid @ CHR ''}'' # f1 @ [CHR ''}''])))) \<and>
   extract_tool_call json_loads ''{"tool":"none"} {"x":1}'' = Inr JNull \<and>
   extract_tool_call json_loads ''{"tool":"none"} [1, 2]'' = Inr (JObj [(''tool'', JStr ''none'')])\<close>
proof (intro conjI allI impI)
  show "json_str text = Some js \<longleftrightarrow>
      (\<exists>pre mid post. unfenced text = pre @ CHR ''{'' # mid @ CHR ''}'' # post \<and>
         CHR ''{'' \<notin> set pre \<and> CHR ''}'' \<notin> set post \<and> js = CHR ''{'' # mid @ [CHR ''}''])"
    using json_str_SomeD json_str_span by blast
  show "extract_tool_call loads text =
     (case json_str text of
        None \<Rightarrow> Inr JNull
      | Some js \<Rightarrow> (case loads js of Inl e \<Rightarrow> Inr JNull | Inr v \<Rightarrow> Inr v))"
    by (rule extract_tool_call_eq)
  show \<open>extract_tool_call json_loads ''{"tool":"none"} {"x":1}'' = Inr JNull\<close>
    by (rule object_then_object)
  show \<open>extract_tool_call json_loads ''{"tool":"none"} [1, 2]''
          = Inr (JObj [(''tool'', JStr ''none'')])\<close>
    by (rule object_then_array)
next
  fix pre mid frag
  assume a: "unfenced text = pre @ CHR ''{'' # mid @ CHR ''}'' # frag \<and> CHR ''{'' \<notin> set pre"
  then have u: "unfenced text = pre @ CHR ''{'' # mid @ CHR ''}'' # frag"
    and p: "CHR ''{'' \<notin> set pre" by simp_all
  from json_str_after_object[OF u p]
  show "json_str text = Some (CHR ''{'' # mid @ [CHR ''}'']) \<longleftrightarrow> CHR ''}'' \<notin> set frag"
    by blast
  {
    assume "CHR ''}'' \<in> set frag"
    with json_str_after_object[OF u p]
    show "\<exists>f1 f2. frag = f1 @ CHR ''}'' # f2 \<and> CHR ''}'' \<notin> set f2 \<and>
            json_str text = Some (CHR ''{'' # mid @ CHR ''}'' # f1 @ [CHR ''}''])"
      by blast
  }
qed

theorem extract_first_to_last_brace_witness:
  \<open>unfenced ''{"tool":"none"} {"x":1}'' = [] @ CHR ''{'' # ''"tool":"none"'' @ CHR ''}'' # '' {"x":1}'' \<and>
   CHR ''{'' \<notin> set [] \<and> CHR ''}'' \<in> set '' {"x":1}'' \<and>
   json_str ''{"tool":"none"} {"x":1}'' \<noteq> Some (CHR ''{'' # ''"tool":"none"'' @ [CHR ''}'']) \<and>
   json_str ''{"tool":"none"} {"x":1}'' = Some ''{"tool":"none"} {"x":1}'' \<and>
   extract_tool_call json_loads ''{"tool":"none"} {"x":1}'' = Inr JNull\<close>
proof -
  note t = extract_first_to_last_brace[of \<open>''{"tool":"none"} {"x":1}''\<close>
      \<open>''{"tool":"none"} {"x":1}''\<close> json_loads]
  note c3 = t[THEN conjunct2, THEN conjunct2, THEN conjunct1, rule_format]
  note c4 = t[THEN conjunct2, THEN conjunct2, THEN conjunct2, THEN conjunct1]
  have u: \<open>unfenced ''{"tool":"none"} {"x":1}''
            = [] @ CHR ''{'' # ''"tool":"none"'' @ CHR ''}'' # '' {"x":1}''\<close>
    using two_fragments_unfenced by simp
  have p: "CHR ''{'' \<notin> set []" by simp
  have m: \<open>CHR ''}'' \<in> set '' {"x":1}''\<close> by simp
  from c3[OF conjI[OF u p]] m
  have n: \<open>json_str ''{"tool":"none"} {"x":1}''
             \<noteq> Some (CHR ''{'' # ''"tool":"none"'' @ [CHR ''}''])\<close>
    by blast
  from u p m n two_fragments_span c4 show ?thesis by (intro conjI)
qed

text \<open>
  C3 as stated fails: on a complete object followed by a second fragment the
  string handed to the decoder is the whole text, not the part up to the brace
  matching the first one, and the extractor returns \<open>None\<close>, not the first object.
\<close>

theorem extract_matching_brace_counterexample:
  \<open>json_str ''{"tool":"none"} {"x":1}'' = Some ''{"tool":"none"} {"x":1}'' \<and>
   spec_json_str ''{"tool":"none"} {"x":1}'' = Some ''{"tool":"none"}'' \<and>
   json_loads ''{"tool":"none"}'' = Inr (JObj [(''tool'', JStr ''none'')]) \<and>
   extract_tool_call json_loads ''{"tool":"none"} {"x":1}'' = Inr JNull\<close>
  by code_simp

text \<open>
  Removing the fence markers and trimming leave an embedded object in place:
  no marker can start inside it or reach into it. What surrounds it can only
  lose characters.
\<close>

lemma replace_from_copy:
  assumes "old \<noteq> []" "hd old \<notin> set u"
  shows "replace_from (u @ b) old [] = u @ replace_from b old []"
  using assms(2)
proof (induction u)
  case Nil
  show ?case by simp
next
  case (Cons x u)
  from Cons.prems have x: "x \<noteq> hd old" and u: "hd old \<notin> set u" by auto
  from x assms(1) have "\<not> prefix old (x # u @ b)"
    by (cases old) auto
  with Cons.IH[OF u] show ?case by simp
qed

lemma prefix_within:
  assumes p: "prefix old (a @ obj @ b)" and obj: "obj \<noteq> []" and h: "hd obj \<notin> set old"
  shows "length old \<le> length a"
proof -
  from p have "prefix old a \<or> (\<exists>us. old = a @ us \<and> prefix us (obj @ b))"
    by (simp add: prefix_append)
  then show ?thesis
  proof
    assume "prefix old a"
    then show ?thesis by (rule prefix_length_le)
  next
    assume "\<exists>us. old = a @ us \<and> prefix us (obj @ b)"
    then obtain us where o: "old = a @ us" and pu: "prefix us (obj @ b)" by blast
    have "us = []"
    proof (rule ccontr)
      assume "us \<noteq> []"
      then obtain y ys where us: "us = y # ys" by (cases us) auto
      from obj obtain c cs where ob: "obj = c # cs" by (cases obj) auto
      from pu us ob have "y = c" by simp
      with o us ob h show False by simp
    qed
    with o show ?thesis by simp
  qed
qed

lemma replace_from_keeps:
  assumes old: "old \<noteq> []" and ho: "hd old \<notin> set obj"
    and obj: "obj \<noteq> []" and h: "hd obj \<notin> set old"
  shows "\<exists>a' b'. replace_from (a @ obj @ b) old [] = a' @ obj @ b' \<and>
           set a' \<subseteq> set a \<and> set b' \<subseteq> set b"
proof (induction a rule: length_induct)
  case (1 a)
  show ?case
  proof (cases a)
    case Nil
    have "replace_from (obj @ b) old [] = obj @ replace_from b old []"
      using old ho by (rule replace_from_copy)
    moreover have "set (replace_from b old []) \<subseteq> set b" by (rule replace_from_subset)
    ultimately show ?thesis using Nil by (intro exI[of _ "[]"] exI[of _ "replace_from b old []"]) simp
  next
    case (Cons x a1)
    show ?thesis
    proof (cases "prefix old (a @ obj @ b)")
      case True
      from prefix_within[OF True obj h] have le: "length old \<le> length a" .
      let ?d = "drop (length old) a"
      from old Cons have "length ?d < length a" by (cases old) auto
      with 1 obtain a' b' where
        r: "replace_from (?d @ obj @ b) old [] = a' @ obj @ b'"
        and s: "set a' \<subseteq> set ?d" "set b' \<subseteq> set b"
        by blast
      from le have "drop (length old) (a @ obj @ b) = ?d @ obj @ b" by simp
      with True old Cons r have "replace_from (a @ obj @ b) old [] = a' @ obj @ b'"
        by simp
      moreover from s(1) have "set a' \<subseteq> set a" using set_drop_subset by fastforce
      ultimately show ?thesis using s(2) by blast
    next
      case False
      from 1 Cons obtain a' b' where
        r: "replace_from (a1 @ obj @ b) old [] = a' @ obj @ b'"
        and s: "set a' \<subseteq> set a1" "set b' \<subseteq> set b"
        by (metis length_Cons lessI)
      from False Cons r have "replace_from (a @ obj @ b) old [] = (x # a') @ obj @ b'"
        by simp
      moreover from s(1) Cons have "set (x # a') \<subseteq> set a" by auto
      ultimately show ?thesis using s(2) by blast
    qed
  qed
qed

lemma replace_keeps:
  assumes "old \<noteq> []" "hd old \<notin> set obj" "obj \<noteq> []" "hd obj \<notin> set old"
  shows "\<exists>a' b'. replace (a @ obj @ b) old [] = a' @ obj @ b' \<and>
           set a' \<subseteq> set a \<and> set b' \<subseteq> set b"
  using replace_from_keeps[OF assms] assms(1) by (simp add: replace_def)

lemma dropWhile_keeps:
  assumes "obj \<noteq> []" "\<not> P (hd obj)"
  shows "\<exists>a'. dropWhile P (a @ obj @ b) = a' @ obj @ b \<and> set a' \<subseteq> set a"
proof (cases "\<forall>x\<in>set a. P x")
  case True
  then have "dropWhile P (a @ obj @ b) = dropWhile P (obj @ b)"
    by (simp add: dropWhile_append2)
  also have "\<dots> = obj @ b" using assms by (cases obj) auto
  finally show ?thesis by (intro exI[of _ "[]"]) simp
next
  case False
  then obtain x where "x \<in> set a" "\<not> P x" by blast
  then have "dropWhile P (a @ obj @ b) = dropWhile P a @ obj @ b"
    by (rule dropWhile_append1)
  moreover have "set (dropWhile P a) \<subseteq> set a" by (auto dest: set_dropWhileD)
  ultimately show ?thesis by blast
qed

lemma strip_keeps:
  assumes obj: "obj \<noteq> []" and f: "\<not> isspace (hd obj)" and l: "\<not> isspace (last obj)"
  shows "\<exists>a' b'. strip (a @ obj @ b) = a' @ obj @ b' \<and> set a' \<subseteq> set a \<and> set b' \<subseteq> set b"
proof -
  from dropWhile_keeps[where P = isspace and obj = obj and a = a and b = b, OF obj f]
  obtain a' where
    d1: "dropWhile isspace (a @ obj @ b) = a' @ obj @ b" and sa: "set a' \<subseteq> set a"
    by blast
  have ro: "rev obj \<noteq> []" "\<not> isspace (hd (rev obj))"
    using obj l by (simp_all add: hd_rev)
  from dropWhile_keeps[where P = isspace and obj = "rev obj" and a = "rev b" and b = "rev a'",
      OF ro]
  obtain b1 where
    d2: "dropWhile isspace (rev b @ rev obj @ rev a') = b1 @ rev obj @ rev a'"
    and sb: "set b1 \<subseteq> set (rev b)"
    by blast
  have "strip (a @ obj @ b) = rev (dropWhile isspace (rev (a' @ obj @ b)))"
    by (simp only: strip_def d1)
  also have "rev (a' @ obj @ b) = rev b @ rev obj @ rev a'" by simp
  also have "rev (dropWhile isspace (rev b @ rev obj @ rev a')) = a' @ obj @ rev b1"
    by (simp only: d2) simp
  finally have "strip (a @ obj @ b) = a' @ obj @ rev b1" .
  moreover from sb have "set (rev b1) \<subseteq> set b" by simp
  ultimately show ?thesis using sa by blast
qed

lemma unfenced_keeps:
  assumes obj: "obj \<noteq> []" and bt: "CHR 0x60 \<notin> set obj"
    and h: "hd obj \<notin> set ''```json''" and f: "\<not> isspace (hd obj)" and l: "\<not> isspace (last obj)"
  shows "\<exists>a' b'. unfenced (a @ obj @ b) = a' @ obj @ b' \<and> set a' \<subseteq> set a \<and> set b' \<subseteq> set b"
proof -
  have "\<exists>a' b'. replace (a @ obj @ b) ''```json'' [] = a' @ obj @ b' \<and>
           set a' \<subseteq> set a \<and> set b' \<subseteq> set b"
    using bt obj h by (intro replace_keeps) simp_all
  then obtain a1 b1 where r1: "replace (a @ obj @ b) ''```json'' [] = a1 @ obj @ b1"
    and s1: "set a1 \<subseteq> set a" "set b1 \<subseteq> set b" by blast
  have "\<exists>a' b'. replace (a1 @ obj @ b1) ''```'' [] = a' @ obj @ b' \<and>
           set a' \<subseteq> set a1 \<and> set b' \<subseteq> set b1"
    using bt obj h by (intro replace_keeps) simp_all
  then obtain a2 b2 where r2: "replace (a1 @ obj @ b1) ''```'' [] = a2 @ obj @ b2"
    and s2: "set a2 \<subseteq> set a1" "set b2 \<subseteq> set b1" by blast
  from strip_keeps[OF obj f l, of a2 b2] obtain a3 b3 where
    r3: "strip (a2 @ obj @ b2) = a3 @ obj @ b3" and s3: "set a3 \<subseteq> set a2" "set b3 \<subseteq> set b2"
    by blast
  have "unfenced (a @ obj @ b) = a3 @ obj @ b3"
    by (simp only: unfenced_def r1 r2 r3)
  moreover from s1 s2 s3 have "set a3 \<subseteq> set a" "set b3 \<subseteq> set b" by blast+
  ultimately show ?thesis by blast
qed

lemma json_str_embedded:
  assumes bt: "CHR 0x60 \<notin> set mid"
    and a: "CHR ''{'' \<notin> set a" and b: "CHR ''}'' \<notin> set b"
  shows "json_str (a @ (CHR ''{'' # mid @ [CHR ''}'']) @ b) = Some (CHR ''{'' # mid @ [CHR ''}''])"
proof -
  let ?obj = "CHR ''{'' # mid @ [CHR ''}'']"
  have "\<exists>a' b'. unfenced (a @ ?obj @ b) = a' @ ?obj @ b' \<and> set a' \<subseteq> set a \<and> set b' \<subseteq> set b"
    using bt by (intro unfenced_keeps) (simp_all add: isspace_def)
  then obtain a' b' where u: "unfenced (a @ ?obj @ b) = a' @ ?obj @ b'"
    and s: "set a' \<subseteq> set a" "set b' \<subseteq> set b" by blast
  from u have u': "unfenced (a @ ?obj @ b) = a' @ CHR ''{'' # mid @ CHR ''}'' # b'" by simp
  from s a b have "CHR ''{'' \<notin> set a'" "CHR ''}'' \<notin> set b'" by blast+
  from json_str_span[OF u' this] show ?thesis .
qed

text \<open>
  What the decoder builds from a text that starts with \<open>{\<close> is an object.
\<close>

lemma object_loop_JObj:
  "object_loop n pairs s = Inr (v, rest) \<Longrightarrow> \<exists>kvs. v = JObj kvs"
proof (induction n arbitrary: pairs s)
  case 0
  then show ?case by simp
next
  case (Suc n)
  from Suc.prems show ?case
    by (auto simp: Let_def split: sum.splits prod.splits list.splits if_splits
             dest: Suc.IH)
qed

lemma scan_once_brace_JObj:
  assumes "scan_once n (CHR ''{'' # cs) = Inr (v, rest)"
  shows "\<exists>kvs. v = JObj kvs"
proof (cases n)
  case 0
  with assms show ?thesis by simp
next
  case (Suc m)
  with assms show ?thesis
    by (auto split: list.splits if_splits dest: object_loop_JObj)
qed

lemma json_loads_brace_JObj:
  assumes "json_loads (CHR ''{'' # cs) = Inr v"
  shows "\<exists>kvs. v = JObj kvs"
proof -
  define n where "n = 2 * length (CHR ''{'' # cs) + 2"
  have sk: "skip_ws (CHR ''{'' # cs) = CHR ''{'' # cs" by (simp add: skip_ws_def json_ws_def)
  have jl: "json_loads (CHR ''{'' # cs) =
      (case scan_once n (CHR ''{'' # cs) of
         Inl e \<Rightarrow> Inl e
       | Inr (obj, rest) \<Rightarrow>
           if skip_ws rest = [] then Inr obj else Inl (JSONDecodeError ''Extra data''))"
    by (simp only: json_loads_def n_def sk)
  show ?thesis
  proof (cases "scan_once n (CHR ''{'' # cs)")
    case (Inl e)
    with jl assms show ?thesis by simp
  next
    case (Inr p)
    obtain obj rest where p: "p = (obj, rest)" by (cases p)
    from jl assms Inr p have "v = obj"
      by (auto split: if_splits)
    with Inr p scan_once_brace_JObj[of n cs obj rest] show ?thesis by simp
  qed
qed

lemma extract_json_loads_result:
  "extract_tool_call json_loads text = Inr JNull \<or>
   (\<exists>kvs. extract_tool_call json_loads text = Inr (JObj kvs))"
proof (cases "json_str text")
  case None
  then show ?thesis by (simp add: extract_tool_call_eq)
next
  case (Some js)
  from json_str_SomeD[OF Some] obtain mid where js: "js = CHR ''{'' # mid @ [CHR ''}'']"
    by blast
  show ?thesis
  proof (cases "json_loads js")
    case (Inl e)
    with Some show ?thesis by (simp add: extract_tool_call_eq)
  next
    case (Inr v)
    with js json_loads_brace_JObj[of "mid @ [CHR ''}'']" v] obtain kvs where "v = JObj kvs"
      by auto
    with Some Inr show ?thesis by (simp add: extract_tool_call_eq)
  qed
qed

lemma loads_tool_none:
  \<open>json_loads ''{"tool":"none"}'' = Inr (JObj [(''tool'', JStr ''none'')])\<close>
  by code_simp

lemma fenced_in_prose:
  assumes p1: "CHR ''{'' \<notin> set p1" and p2: "CHR ''}'' \<notin> set p2"
  shows \<open>extract_tool_call json_loads
           (p1 @ ''```json'' @ [CHR 0x0A] @ ''{"tool":"none"}'' @ [CHR 0x0A] @ ''```'' @ p2)
         = Inr (JObj [(''tool'', JStr ''none'')])\<close>
proof -
  let ?a = "p1 @ ''```json'' @ [CHR 0x0A]"
  let ?b = "[CHR 0x0A] @ ''```'' @ p2"
  have bt: \<open>CHR 0x60 \<notin> set ''"tool":"none"''\<close> by simp
  have a: "CHR ''{'' \<notin> set ?a" using p1 by simp
  have b: "CHR ''}'' \<notin> set ?b" using p2 by simp
  from json_str_embedded[OF bt a b]
  have \<open>json_str (?a @ ''{"tool":"none"}'' @ ?b) = Some ''{"tool":"none"}''\<close> by simp
  then have \<open>json_str (p1 @ ''```json'' @ [CHR 0x0A] @ ''{"tool":"none"}'' @ [CHR 0x0A] @ ''```'' @ p2)
               = Some ''{"tool":"none"}''\<close>
    by (simp only: append_assoc)
  then show ?thesis by (simp only: extract_tool_call_eq option.case loads_tool_none sum.case)
qed

text \<open>
  C4 (as the code has it). For every decoder, whatever it raises, and every
  text, the extractor returns: either \<open>None\<close> or what the decoder built from
  the extracted string, which with \<open>json_loads\<close> is an object. A text without
  \<open>{\<close> gives \<open>None\<close>. The fenced object \<open>{"tool":"none"}\<close> wrapped in prose
  gives that object whenever the prose before it has no \<open>{\<close> and the prose after
  it has no \<open>}\<close>.
\<close>

theorem extract_tool_call_returns:
  \<open>(\<exists>v. extract_tool_call loads text = Inr v) \<and>
   (extract_tool_call loads text = Inr JNull \<or>
      (\<exists>js. json_str text = Some js \<and> loads js = extract_tool_call loads text)) \<and>
   (CHR ''{'' \<notin> set text \<longrightarrow> extract_tool_call loads text = Inr JNull) \<and>
   (extract_tool_call json_loads text = Inr JNull \<or>
      (\<exists>kvs. extract_tool_call json_loads text = Inr (JObj kvs))) \<and>
   (\<forall>p1 p2. CHR ''{'' \<notin> set p1 \<and> CHR ''}'' \<notin> set p2 \<longrightarrow>
      extract_tool_call json_loads
        (p1 @ ''```json'' @ [CHR 0x0A] @ ''{"tool":"none"}'' @ [CHR 0x0A] @ ''```'' @ p2)
      = Inr (JObj [(''tool'', JStr ''none'')]))\<close>
proof (intro conjI allI impI)
  show "extract_tool_call json_loads text = Inr JNull \<or>
      (\<exists>kvs. extract_tool_call json_loads text = Inr (JObj kvs))"
    by (rule extract_json_loads_result)
  show "\<exists>v. extract_tool_call loads text = Inr v"
    by (simp add: extract_tool_call_eq split: option.splits sum.splits)
  show "extract_tool_call loads text = Inr JNull \<or>
      (\<exists>js. json_str text = Some js \<and> loads js = extract_tool_call loads text)"
    by (simp add: extract_tool_call_eq split: option.splits sum.splits)
  show "extract_tool_call loads text = Inr JNull" if "CHR ''{'' \<notin> set text"
    using that by (simp add: extract_tool_call_eq json_str_no_brace)
  show \<open>extract_tool_call json_loads
        (p1 @ ''```json'' @ [CHR 0x0A] @ ''{"tool":"none"}'' @ [CHR 0x0A] @ ''```'' @ p2)
      = Inr (JObj [(''tool'', JStr ''none'')])\<close>
    if "CHR ''{'' \<notin> set p1 \<and> CHR ''}'' \<notin> set p2" for p1 p2
    using that fenced_in_prose by blast
qed

theorem extract_tool_call_returns_witness:
  \<open>CHR ''{'' \<notin> set ''Hello there!'' \<and>
   extract_tool_call json_loads ''Hello there!'' = Inr JNull \<and>
   CHR ''{'' \<notin> set ''Sure, here it is: '' \<and> CHR ''}'' \<notin> set '' Let me know if you need more.'' \<and>
   extract_tool_call json_loads
     (''Sure, here it is: '' @ ''```json'' @ [CHR 0x0A] @ ''{"tool":"none"}'' @ [CHR 0x0A] @
      ''```'' @ '' Let me know if you need more.'')
   = Inr (JObj [(''tool'', JStr ''none'')]) \<and>
   extract_tool_call (\<lambda>s. Inl KeyboardInterrupt) ''{}'' = Inr JNull\<close>
proof -
  note t = extract_tool_call_returns[of json_loads "''Hello there!''"]
  note c3 = t[THEN conjunct2, THEN conjunct2, THEN conjunct1]
  note c5 = t[THEN conjunct2, THEN conjunct2, THEN conjunct2, THEN conjunct2, rule_format]
  have h: "CHR ''{'' \<notin> set ''Hello there!''" by simp
  have p1: "CHR ''{'' \<notin> set ''Sure, here it is: ''" by simp
  have p2: "CHR ''}'' \<notin> set '' Let me know if you need more.''" by simp
  have a: "extract_tool_call (\<lambda>s. Inl KeyboardInterrupt) ''{}'' = Inr JNull"
    by (simp add: extract_tool_call_eq split: option.splits)
  from c3 h have n: "extract_tool_call json_loads ''Hello there!'' = Inr JNull" by blast
  note f = c5[OF conjI[OF p1 p2]]
  from h n p1 p2 f a show ?thesis by (intro conjI)
qed

text \<open>
  C4 as stated fails: prose with braces before the fence moves the first \<open>{\<close>,
  the decoder rejects what is extracted, and the fenced object is lost.
\<close>

theorem fenced_prose_with_braces_counterexample:
  \<open>extract_tool_call json_loads
     (''Use {braces} like this: '' @ ''```json'' @ [CHR 0x0A] @ ''{"tool":"none"}'' @ [CHR 0x0A] @
      ''```'')
   = Inr JNull\<close>
  by code_simp

section \<open>One turn: the branch taken and the failure of a tool\<close>

lemma wants_tool_obj:
  "wants_tool (JObj kvs) =
     Inr (kvs \<noteq> [] \<and> map_of kvs ''tool'' \<noteq> Some (JStr ''none''))"
  by (cases "map_of kvs ''tool''") (auto simp: wants_tool_def)

lemma chat_with_mistral_obj:
  assumes "decision t user_message = Inr response"
    and "extract_tool_call loads response = Inr (JObj kvs)"
  shows "chat_with_mistral self loads t user_message =
     (if kvs \<noteq> [] \<and> map_of kvs ''tool'' \<noteq> Some (JStr ''none'')
      then tool_branch self t user_message (JObj kvs)
      else chat_branch t user_message)"
  using assms by (simp add: chat_with_mistral_def wants_tool_obj)

lemma tool_branch_named:
  assumes "map_of kvs ''tool'' = Some tool_name"
  shows "tool_branch self t user_message (JObj kvs) =
     (case tool_try self t user_message tool_name
             (case map_of kvs ''arguments'' of None \<Rightarrow> JObj [] | Some a \<Rightarrow> a) of
        (evs, Inl e) \<Rightarrow>
          if is_Exception e then (evs @ [Print_debug (exn_str e), Print_apology], Inr ())
          else (evs, Inl e)
      | (evs, Inr u) \<Rightarrow> (evs, Inr ()))"
  using assms by (simp add: tool_branch_def split: option.splits)

lemma tool_try_connected:
  assumes "session self"
  shows "\<exists>evs r. tool_try self t user_message tool_name tool_args
            = (Call_tool tool_name tool_args # evs, r)"
  using assms
  by (auto simp: tool_try_def process_tool_call_def split: sum.splits list.splits)

text \<open>
  C5 (as the code has it). Neither the extractor nor the turn looks the tool
  name up in a catalog. Whenever the extracted object has an entry \<open>tool\<close> other
  than the string \<open>none\<close>, the turn takes the tool branch and, on a connected
  client, calls the backend with exactly that name and the given arguments
  (\<open>{}\<close> when there are none).
\<close>

theorem dispatch_any_tool_name:
  assumes "decision t user_message = Inr response"
    and "extract_tool_call loads response = Inr (JObj kvs)"
    and "map_of kvs ''tool'' = Some tool_name"
    and "tool_name \<noteq> JStr ''none''"
    and "session self"
  shows "\<exists>evs r. chat_with_mistral self loads t user_message =
     (Call_tool tool_name (case map_of kvs ''arguments'' of None \<Rightarrow> JObj [] | Some a \<Rightarrow> a)
        # evs, r)"
proof -
  let ?args = "case map_of kvs ''arguments'' of None \<Rightarrow> JObj [] | Some a \<Rightarrow> a"
  from assms(3) have ne: "kvs \<noteq> []" by auto
  from tool_try_connected[OF assms(5), of t user_message tool_name ?args]
  obtain evs r where tt: "tool_try self t user_message tool_name ?args
      = (Call_tool tool_name ?args # evs, r)" by blast
  have "chat_with_mistral self loads t user_message = tool_branch self t user_message (JObj kvs)"
    using chat_with_mistral_obj[OF assms(1,2)] ne assms(3,4) by simp
  also have "\<dots> = (case (Call_tool tool_name ?args # evs, r) of
        (evs, Inl e) \<Rightarrow>
          if is_Exception e then (evs @ [Print_debug (exn_str e), Print_apology], Inr ())
          else (evs, Inl e)
      | (evs, Inr u) \<Rightarrow> (evs, Inr ()))"
    using tool_branch_named[OF assms(3)] tt by simp
  finally show ?thesis by (cases r) auto
qed

theorem dispatch_any_tool_name_witness:
  "chat_with_mistral connected json_loads coffee_turn ''make me a coffee'' =
     ([Call_tool (JStr ''make_coffee'') (JObj []),
       Print_debug ''Unknown tool: make_coffee'', Print_apology], Inr ()) \<and>
   (\<exists>evs r. chat_with_mistral connected json_loads coffee_turn ''make me a coffee'' =
      (Call_tool (JStr ''make_coffee'') (JObj []) # evs, r))"
proof -
  have a: "chat_with_mistral connected json_loads coffee_turn ''make me a coffee'' =
     ([Call_tool (JStr ''make_coffee'') (JObj []),
       Print_debug ''Unknown tool: make_coffee'', Print_apology], Inr ())"
    by code_simp
  have d: \<open>decision coffee_turn ''make me a coffee'' = Inr ''{"tool": "make_coffee"}''\<close>
    by (simp add: coffee_turn_def)
  have x: \<open>extract_tool_call json_loads ''{"tool": "make_coffee"}''
             = Inr (JObj [(''tool'', JStr ''make_coffee'')])\<close>
    by code_simp
  have s: "session connected" by (simp add: connected_def)
  from dispatch_any_tool_name[OF d x _ _ s, of "JStr ''make_coffee''"] a
  show ?thesis by simp
qed

text \<open>
  C5 as stated fails: the model names \<open>make_coffee\<close>, which is neither \<open>none\<close> nor
  a tool of the server, and the call still reaches the backend.
\<close>

theorem dispatch_unknown_tool_counterexample:
  "chat_with_mistral connected json_loads coffee_turn ''make me a coffee'' =
     ([Call_tool (JStr ''make_coffee'') (JObj []),
       Print_debug ''Unknown tool: make_coffee'', Print_apology], Inr ()) \<and>
   ''make_coffee'' \<notin> set tool_catalog \<and> ''make_coffee'' \<noteq> ''none''"
  by code_simp

lemma tool_try_raises:
  assumes "process_tool_call self t tool_name tool_args = (evs, Inl e)"
  shows "tool_try self t user_message tool_name tool_args = (evs, Inl e)"
  using assms by (simp add: tool_try_def)

lemma process_tool_call_events:
  "set (fst (process_tool_call self t tool_name tool_args)) \<subseteq> {Call_tool tool_name tool_args}"
  by (auto simp: process_tool_call_def split: sum.splits list.splits)

lemma main_loop_continues:
  assumes "user_line t = Inr line"
    and "strip line \<noteq> []"
    and "lower (strip line) \<notin> set [''quit'', ''exit'', ''bye'', ''goodbye'']"
    and "chat_with_mistral self loads t (strip line) = (evs, Inr ())"
  shows "main_loop self loads (t # ts) =
     (Print_blank # evs @ [Print_rule] @ fst (main_loop self loads ts),
      snd (main_loop self loads ts))"
  using assms by (simp add: Let_def split: prod.splits)

text \<open>
  C6. In a turn that reaches the tool branch and in which the tool invocation
  raises an exception of a class derived from \<open>Exception\<close> (a backend error, a
  rejected argument, an unknown tool name, a client that is not connected), the
  turn itself ends normally: after what the invocation did, it prints the
  diagnostic line and one apology. The loop prints its rule and goes on with
  the next input exactly as it would have without this turn.
\<close>

theorem tool_failure_caught:
  assumes "user_line t = Inr line"
    and "strip line \<noteq> []"
    and "lower (strip line) \<notin> set [''quit'', ''exit'', ''bye'', ''goodbye'']"
    and "decision t (strip line) = Inr response"
    and "extract_tool_call loads response = Inr (JObj kvs)"
    and "map_of kvs ''tool'' = Some tool_name"
    and "tool_name \<noteq> JStr ''none''"
    and "process_tool_call self t tool_name
           (case map_of kvs ''arguments'' of None \<Rightarrow> JObj [] | Some a \<Rightarrow> a) = (evs, Inl e)"
    and "is_Exception e"
  shows "chat_with_mistral self loads t (strip line) =
           (evs @ [Print_debug (exn_str e), Print_apology], Inr ()) \<and>
         Print_apology \<notin> set evs \<and>
         main_loop self loads (t # ts) =
           (Print_blank # evs @ [Print_debug (exn_str e), Print_apology, Print_rule]
              @ fst (main_loop self loads ts),
            snd (main_loop self loads ts))"
proof -
  let ?args = "case map_of kvs ''arguments'' of None \<Rightarrow> JObj [] | Some a \<Rightarrow> a"
  from assms(6) have ne: "kvs \<noteq> []" by auto
  have "chat_with_mistral self loads t (strip line) = tool_branch self t (strip line) (JObj kvs)"
    using chat_with_mistral_obj[OF assms(4,5)] ne assms(6,7) by simp
  also have "\<dots> = (evs @ [Print_debug (exn_str e), Print_apology], Inr ())"
    using tool_branch_named[OF assms(6)] tool_try_raises[OF assms(8)] assms(9) by simp
  finally have c: "chat_with_mistral self loads t (strip line) =
           (evs @ [Print_debug (exn_str e), Print_apology], Inr ())" .
  have a: "Print_apology \<notin> set evs"
    using process_tool_call_events[of self t tool_name ?args] assms(8) by auto
  from main_loop_continues[OF assms(1,2,3) c] c a show ?thesis by simp
qed

lemma coffee_facts:
  \<open>strip ''make me a coffee'' = ''make me a coffee'' \<and>
   lower ''make me a coffee'' \<notin> set [''quit'', ''exit'', ''bye'', ''goodbye''] \<and>
   extract_tool_call json_loads ''{"tool": "make_coffee"}''
     = Inr (JObj [(''tool'', JStr ''make_coffee'')]) \<and>
   process_tool_call connected coffee_turn (JStr ''make_coffee'') (JObj [])
     = ([Call_tool (JStr ''make_coffee'') (JObj [])], Inl (OtherError ''Unknown tool: make_coffee''))\<close>
  by code_simp

theorem tool_failure_caught_witness:
  "main_loop connected json_loads [coffee_turn, quit_turn] =
     ([Print_blank, Call_tool (JStr ''make_coffee'') (JObj []),
       Print_debug ''Unknown tool: make_coffee'', Print_apology, Print_rule, Print_farewell],
      Inr ())"
proof -
  have q: "main_loop connected json_loads [quit_turn] = ([Print_farewell], Inr ())"
    by code_simp
  have u: "user_line coffee_turn = Inr ''make me a coffee''"
    and d: \<open>decision coffee_turn ''make me a coffee'' = Inr ''{"tool": "make_coffee"}''\<close>
    by (simp_all add: coffee_turn_def)
  from coffee_facts
    tool_failure_caught[of coffee_turn "''make me a coffee''" \<open>''{"tool": "make_coffee"}''\<close>
      json_loads "[(''tool'', JStr ''make_coffee'')]" "JStr ''make_coffee''" connected
      "[Call_tool (JStr ''make_coffee'') (JObj [])]" "OtherError ''Unknown tool: make_coffee''"
      "[quit_turn]"]
    u d q
  show ?thesis by simp
qed

text \<open>
  C10 (as the code has it). The conversational branch is taken when the
  extractor returns \<open>None\<close>, the empty object (an empty \<open>dict\<close> is false in the
  condition), or an object whose entry \<open>tool\<close> is the string \<open>none\<close>. A non-empty
  object without the key \<open>tool\<close> takes the tool branch, where the subscript
  \<open>tool_call['tool']\<close> raises \<open>KeyError\<close> before the \<open>try\<close>: the exception leaves
  the turn. Every other non-empty object takes the tool branch as well.
\<close>

theorem fallback_branch_conditions:
  assumes "decision t user_message = Inr response"
  shows "(extract_tool_call loads response = Inr JNull \<longrightarrow>
            chat_with_mistral self loads t user_message = chat_branch t user_message) \<and>
         (\<forall>kvs. extract_tool_call loads response = Inr (JObj kvs) \<longrightarrow>
            (kvs = [] \<or> map_of kvs ''tool'' = Some (JStr ''none'') \<longrightarrow>
               chat_with_mistral self loads t user_message = chat_branch t user_message) \<and>
            (kvs \<noteq> [] \<and> map_of kvs ''tool'' = None \<longrightarrow>
               chat_with_mistral self loads t user_message = ([], Inl (KeyError ''tool''))) \<and>
            (kvs \<noteq> [] \<and> map_of kvs ''tool'' \<noteq> Some (JStr ''none'') \<longrightarrow>
               chat_with_mistral self loads t user_message
                 = tool_branch self t user_message (JObj kvs)))"
proof (intro conjI allI impI)
  assume "extract_tool_call loads response = Inr JNull"
  with assms show "chat_with_mistral self loads t user_message = chat_branch t user_message"
    by (simp add: chat_with_mistral_def wants_tool_def)
next
  fix kvs
  assume x: "extract_tool_call loads response = Inr (JObj kvs)"
  note c = chat_with_mistral_obj[OF assms x, of self]
  {
    assume "kvs = [] \<or> map_of kvs ''tool'' = Some (JStr ''none'')"
    with c show "chat_with_mistral self loads t user_message = chat_branch t user_message"
      by auto
  next
    assume a: "kvs \<noteq> [] \<and> map_of kvs ''tool'' = None"
    then have "tool_branch self t user_message (JObj kvs) = ([], Inl (KeyError ''tool''))"
      by (simp add: tool_branch_def)
    with c a show "chat_with_mistral self loads t user_message = ([], Inl (KeyError ''tool''))"
      by simp
  next
    assume "kvs \<noteq> [] \<and> map_of kvs ''tool'' \<noteq> Some (JStr ''none'')"
    with c show "chat_with_mistral self loads t user_message
                 = tool_branch self t user_message (JObj kvs)"
      by simp
  }
qed

theorem fallback_branch_conditions_witness:
  \<open>chat_with_mistral connected json_loads no_tool_key_turn ''hi'' = ([], Inl (KeyError ''tool'')) \<and>
   chat_with_mistral connected json_loads empty_object_turn ''hi''
     = chat_branch empty_object_turn ''hi'' \<and>
   main good_backend json_loads [no_tool_key_turn]
     = ([Print_banner, Print_connected, Print_help, Print_blank, Close, Session_exit,
         Client_exit], Inl (KeyError ''tool''))\<close>
proof -
  have d1: \<open>decision no_tool_key_turn ''hi'' = Inr ''{"arguments": {}}''\<close>
    by (simp add: no_tool_key_turn_def)
  have x1: \<open>extract_tool_call json_loads ''{"arguments": {}}''
              = Inr (JObj [(''arguments'', JObj [])])\<close>
    by code_simp
  have d2: \<open>decision empty_object_turn ''hi'' = Inr ''{}''\<close>
    by (simp add: empty_object_turn_def)
  have x2: \<open>extract_tool_call json_loads ''{}'' = Inr (JObj [])\<close>
    by code_simp
  have m: "main good_backend json_loads [no_tool_key_turn]
     = ([Print_banner, Print_connected, Print_help, Print_blank, Close, Session_exit,
         Client_exit], Inl (KeyError ''tool''))"
    by code_simp
  from fallback_branch_conditions[OF d1, of json_loads connected]
       fallback_branch_conditions[OF d2, of json_loads connected] x1 x2 m
  show ?thesis by simp
qed

text \<open>
  C10 as stated fails at its own example: when the model answers \<open>{}\<close> the
  extractor returns the empty object, the condition is false, and the turn
  answers conversationally; nothing is raised.
\<close>

theorem empty_object_counterexample:
  \<open>decision empty_object_turn ''hi'' = Inr ''{}'' \<and>
   extract_tool_call json_loads ''{}'' = Inr (JObj []) \<and>
   chat_with_mistral connected json_loads empty_object_turn ''hi''
     = ([Print_chat ''Hello!''], Inr ())\<close>
  by code_simp

section \<open>The knowledge-base query of the server\<close>

text \<open>
  C7 (as the code has it). Without a collection the result is the error object.
  With one, as long as the query returns or raises an exception of a class
  derived from \<open>Exception\<close>, the result is an array of strings or an object
  \<open>{"error": message}\<close>, never both. An exception of any other class
  (\<open>KeyboardInterrupt\<close>, \<open>SystemExit\<close>) is not caught by \<open>except Exception\<close> and
  leaves the function.
\<close>

theorem query_knowledge_base_payload:
  "(collection = None \<longrightarrow>
      query_knowledge_base collection query_text n_results
        = Inr (JObj [(''error'', JStr ''Cannot query. ChromaDB collection is not available.'')])) \<and>
   (\<forall>query. collection = Some query \<longrightarrow>
      (\<forall>e. query [query_text] n_results = Inl e \<longrightarrow> is_Exception e) \<longrightarrow>
      (\<exists>docs. query_knowledge_base collection query_text n_results = Inr (JArr (map JStr docs))) \<or>
      (\<exists>m. query_knowledge_base collection query_text n_results
              = Inr (JObj [(''error'', JStr m)]))) \<and>
   \<not> ((\<exists>docs. query_knowledge_base collection query_text n_results = Inr (JArr (map JStr docs))) \<and>
      (\<exists>m. query_knowledge_base collection query_text n_results
              = Inr (JObj [(''error'', JStr m)]))) \<and>
   (\<forall>query e. collection = Some query \<and> query [query_text] n_results = Inl e \<and>
      \<not> is_Exception e \<longrightarrow>
      query_knowledge_base collection query_text n_results = Inl e)"
proof (intro conjI allI impI)
  assume "collection = None"
  then show "query_knowledge_base collection query_text n_results
        = Inr (JObj [(''error'', JStr ''Cannot query. ChromaDB collection is not available.'')])"
    by (simp add: query_knowledge_base_def)
next
  fix query
  assume c: "collection = Some query"
    and ex: "\<forall>e. query [query_text] n_results = Inl e \<longrightarrow> is_Exception e"
  show "(\<exists>docs. query_knowledge_base collection query_text n_results = Inr (JArr (map JStr docs))) \<or>
      (\<exists>m. query_knowledge_base collection query_text n_results
              = Inr (JObj [(''error'', JStr m)]))"
  proof (cases "query [query_text] n_results")
    case (Inl e)
    with ex have "is_Exception e" by simp
    with c Inl show ?thesis by (simp add: query_knowledge_base_def query_try_def)
  next
    case (Inr results)
    show ?thesis
    proof (cases "documents results")
      case None
      with c Inr show ?thesis by (simp add: query_knowledge_base_def query_try_def)
    next
      case (Some ds)
      with c Inr show ?thesis
        by (cases ds) (auto simp: query_knowledge_base_def query_try_def)
    qed
  qed
next
  show "\<not> ((\<exists>docs. query_knowledge_base collection query_text n_results = Inr (JArr (map JStr docs))) \<and>
      (\<exists>m. query_knowledge_base collection query_text n_results
              = Inr (JObj [(''error'', JStr m)])))"
    by auto
next
  fix query e
  assume "collection = Some query \<and> query [query_text] n_results = Inl e \<and> \<not> is_Exception e"
  then show "query_knowledge_base collection query_text n_results = Inl e"
    by (simp add: query_knowledge_base_def query_try_def)
qed

theorem query_knowledge_base_payload_witness:
  "query_knowledge_base None ''syllabus'' 3
     = Inr (JObj [(''error'', JStr ''Cannot query. ChromaDB collection is not available.'')]) \<and>
   query_knowledge_base (Some sample_query) ''syllabus'' 3
     = Inr (JArr (map JStr [''first chunk'', ''second chunk''])) \<and>
   query_knowledge_base (Some failing_query) ''syllabus'' 3
     = Inr (JObj [(''error'', JStr ''An error occurred during the query: connection refused'')]) \<and>
   query_knowledge_base (Some interrupted_query) ''syllabus'' 3 = Inl KeyboardInterrupt"
proof -
  have a: "query_knowledge_base (Some sample_query) ''syllabus'' 3
     = Inr (JArr (map JStr [''first chunk'', ''second chunk'']))"
    by code_simp
  have b: "query_knowledge_base (Some failing_query) ''syllabus'' 3
     = Inr (JObj [(''error'', JStr ''An error occurred during the query: connection refused'')])"
    by code_simp
  have i: "interrupted_query [''syllabus''] 3 = Inl KeyboardInterrupt"
    by (simp add: interrupted_query_def)
  from query_knowledge_base_payload[of None "''syllabus''" 3]
       query_knowledge_base_payload[of "Some interrupted_query" "''syllabus''" 3] a b i
  show ?thesis by simp
qed

text \<open>
  C7 as stated fails: an interrupt raised inside the query of the store
  leaves \<open>query_knowledge_base\<close> as a raised exception.
\<close>

theorem query_interrupted_counterexample:
  "query_knowledge_base (Some interrupted_query) ''syllabus'' 3 = Inl KeyboardInterrupt"
  by code_simp

section \<open>The session: close on every way out\<close>

text \<open>
  Nothing in a turn or in the loop calls \<open>close\<close>; after a successful connection
  both contexts are set, so \<open>close\<close> leaves the session context and, unless that
  raises, the client context.
\<close>

lemma tool_try_no_close: "Close \<notin> set (fst (tool_try self t user_message tool_name tool_args))"
  by (auto simp: tool_try_def process_tool_call_def split: sum.splits list.splits)

lemma tool_branch_no_close: "Close \<notin> set (fst (tool_branch self t user_message tool_call))"
proof -
  have "Close \<notin> set (fst (tool_try self t user_message tool_name tool_args))"
    for tool_name tool_args by (rule tool_try_no_close)
  then show ?thesis
    by (auto simp: tool_branch_def split: sum.splits prod.splits if_splits)
      (metis fst_conv)+
qed

lemma chat_branch_no_close: "Close \<notin> set (fst (chat_branch t user_message))"
  by (auto simp: chat_branch_def split: sum.splits)

lemma chat_with_mistral_no_close:
  "Close \<notin> set (fst (chat_with_mistral self loads t user_message))"
  using tool_branch_no_close chat_branch_no_close
  by (auto simp: chat_with_mistral_def split: sum.splits bool.splits)

lemma main_loop_no_close: "Close \<notin> set (fst (main_loop self loads ts))"
proof (induction ts)
  case Nil
  show ?case by simp
next
  case (Cons t ts)
  have c: "Close \<notin> set (fst (chat_with_mistral self loads t msg))" for msg
    by (rule chat_with_mistral_no_close)
  show ?case
  proof (cases "user_line t")
    case (Inl e)
    then show ?thesis by simp
  next
    case (Inr line)
    show ?thesis
    proof (cases "chat_with_mistral self loads t (strip line)")
      case (Pair evs r)
      with c[of "strip line"] have e: "Close \<notin> set evs" by simp
      obtain evs' r' where m: "main_loop self loads ts = (evs', r')" by (cases "main_loop self loads ts")
      with Cons.IH have e': "Close \<notin> set evs'" by simp
      from Inr Pair m e e' Cons.IH show ?thesis
        by (cases r) (auto simp: Let_def)
    qed
  qed
qed

lemma connect_to_server_ok:
  assumes "connect_to_server b c0 = (self, Inr ())"
  shows "session_context self \<and> client_context self \<and> session self"
  using assms
  by (auto simp: connect_to_server_def Let_def split: sum.splits)

lemma close_connected:
  assumes "session_context self" "client_context self"
  shows "\<exists>post r. close b self = (Close # post, r) \<and>
           (post = [Session_exit] \<or> post = [Session_exit, Client_exit]) \<and>
           (session_exit b = Inr () \<longrightarrow> post = [Session_exit, Client_exit])"
  using assms by (auto simp: close_def split: sum.splits)

text \<open>
  C9. Once the connection is made, every run of \<open>main\<close> that ends calls \<open>close\<close>
  exactly once, after everything else it does, whatever the script of inputs
  and whatever the collaborators answer or raise: the loop left by a sentinel,
  by an interrupt, by the end of the input, or by an exception that a turn
  raised. \<open>close\<close> then leaves the session context and, if that does not raise,
  the client context.
\<close>

theorem close_on_every_exit:
  assumes "connect_to_server b \<lparr>session = False, session_context = False,
                                  client_context = False\<rparr> = (self, Inr ())"
  shows "\<exists>pre post r. main b loads script = (pre @ Close # post, r) \<and> Close \<notin> set pre \<and>
           (post = [Session_exit] \<or> post = [Session_exit, Client_exit]) \<and>
           (session_exit b = Inr () \<longrightarrow> post = [Session_exit, Client_exit])"
proof -
  from connect_to_server_ok[OF assms] have sc: "session_context self" "client_context self"
    by simp_all
  from close_connected[OF sc, of b] obtain post cr where
    cl: "close b self = (Close # post, cr)"
    and post: "post = [Session_exit] \<or> post = [Session_exit, Client_exit]"
      "session_exit b = Inr () \<longrightarrow> post = [Session_exit, Client_exit]"
    by blast
  obtain evs r where ml: "main_loop self loads script = (evs, r)"
    by (cases "main_loop self loads script")
  with main_loop_no_close[of self loads script] have nc: "Close \<notin> set evs" by simp
  define evs' where "evs' = (if r = Inl KeyboardInterrupt then evs @ [Print_interrupted] else evs)"
  define r' where "r' = (if r = Inl KeyboardInterrupt then Inr () else r)"
  define pre where "pre = [Print_banner, Print_connected, Print_help] @ evs'"
  have pc: "Close \<notin> set pre" using nc by (simp add: pre_def evs'_def)
  have "main b loads script = (pre @ Close # post, case cr of Inl e \<Rightarrow> Inl e | Inr _ \<Rightarrow> r')"
    using assms ml cl
    by (simp add: main_def pre_def evs'_def r'_def split: sum.splits)
  with pc post show ?thesis by blast
qed

theorem close_on_every_exit_witness:
  "main good_backend json_loads [coffee_turn, quit_turn] =
     ([Print_banner, Print_connected, Print_help, Print_blank,
       Call_tool (JStr ''make_coffee'') (JObj []),
       Print_debug ''Unknown tool: make_coffee'', Print_apology, Print_rule,
       Print_farewell] @ Close # [Session_exit, Client_exit], Inr ()) \<and>
   main good_backend json_loads [coffee_turn, interrupt_turn] =
     ([Print_banner, Print_connected, Print_help, Print_blank,
       Call_tool (JStr ''make_coffee'') (JObj []),
       Print_debug ''Unknown tool: make_coffee'', Print_apology, Print_rule,
       Print_interrupted] @ Close # [Session_exit, Client_exit], Inr ()) \<and>
   main good_backend json_loads [no_tool_key_turn] =
     ([Print_banner, Print_connected, Print_help, Print_blank] @
      Close # [Session_exit, Client_exit], Inl (KeyError ''tool'')) \<and>
   main good_backend json_loads [] =
     ([Print_banner, Print_connected, Print_help] @ Close # [Session_exit, Client_exit],
      Inl EOFError) \<and>
   (\<exists>pre post r. main good_backend json_loads [no_tool_key_turn] = (pre @ Close # post, r) \<and>
      Close \<notin> set pre \<and> post = [Session_exit, Client_exit])"
proof -
  have c: "connect_to_server good_backend \<lparr>session = False, session_context = False,
             client_context = False\<rparr> = (connected, Inr ())"
    by (simp add: connect_to_server_def good_backend_def connected_def)
  have s: "session_exit good_backend = Inr ()" by (simp add: good_backend_def)
  have 1: "main good_backend json_loads [coffee_turn, quit_turn] =
     ([Print_banner, Print_connected, Print_help, Print_blank,
       Call_tool (JStr ''make_coffee'') (JObj []),
       Print_debug ''Unknown tool: make_coffee'', Print_apology, Print_rule,
       Print_farewell] @ Close # [Session_exit, Client_exit], Inr ())"
    by code_simp
  have 2: "main good_backend json_loads [coffee_turn, interrupt_turn] =
     ([Print_banner, Print_connected, Print_help, Print_blank,
       Call_tool (JStr ''make_coffee'') (JObj []),
       Print_debug ''Unknown tool: make_coffee'', Print_apology, Print_rule,
       Print_interrupted] @ Close # [Session_exit, Client_exit], Inr ())"
    by code_simp
  have 3: "main good_backend json_loads [no_tool_key_turn] =
     ([Print_banner, Print_connected, Print_help, Print_blank] @
      Close # [Session_exit, Client_exit], Inl (KeyError ''tool''))"
    by code_simp
  have 4: "main good_backend json_loads [] =
     ([Print_banner, Print_connected, Print_help] @ Close # [Session_exit, Client_exit],
      Inl EOFError)"
    by code_simp
  from close_on_every_exit[OF c, of json_loads "[no_tool_key_turn]"] s
  have 5: "\<exists>pre post r. main good_backend json_loads [no_tool_key_turn] = (pre @ Close # post, r) \<and>
      Close \<notin> set pre \<and> post = [Session_exit, Client_exit]"
    by auto
  from 1 2 3 4 5 show ?thesis by (intro conjI)
qed

end
